theory Spec2Isabelle
  imports Main "HOL-Library.Word" "HOL-Library.Signed_Division" "HOL-Library.Multiset"
begin

section \<open>Go's int64\<close>

text \<open>
  Sizes, offsets, thread counts and token counts are Go \<^verbatim>\<open>int64\<close> values: 64-bit words
  whose \<open>+\<close>, \<open>-\<close> and \<open>*\<close> wrap around and whose order is the signed one (\<open>sint\<close>).
  Go's \<^verbatim>\<open>/\<close> truncates towards zero and panics on a zero divisor (\<open>None\<close> here).
\<close>

type_synonym int64 = "64 word"

definition div64 :: "int64 \<Rightarrow> int64 \<Rightarrow> int64 option" where
  "div64 a b = (if b = 0 then None else Some (word_of_int (sint a sdiv sint b)))"

section \<open>Chunk planning (runDownload, APS2 lines 174-204; main, APS1 lines 161-190)\<close>

text \<open>
  \<^verbatim>\<open>chunkSize := (fileSize + threads - 1) / threads\<close> and
  \<^verbatim>\<open>chunks := (fileSize + chunkSize - 1) / chunkSize\<close>.
\<close>

definition chunkSize_of :: "int64 \<Rightarrow> int64 \<Rightarrow> int64 option" where
  "chunkSize_of fileSize threads = div64 (fileSize + threads - 1) threads"

definition chunks_of :: "int64 \<Rightarrow> int64 \<Rightarrow> int64 option" where
  "chunks_of fileSize chunkSize = div64 (fileSize + chunkSize - 1) chunkSize"

lemma sint_succ_less:
  fixes i :: int64
  assumes "i <s chunks"
  shows "sint (i + 1) = sint i + 1"
proof -
  have "sint chunks < 2 ^ 63" using sint_lt [of chunks] by simp
  moreover have "- (2 ^ 63) \<le> sint i" using sint_ge [of i] by simp
  moreover have "sint i < sint chunks" using assms by (simp add: word_sless_alt)
  ultimately have "signed_take_bit 63 (sint i + 1) = sint i + 1"
    by (intro signed_take_bit_int_eq_self) auto
  then show ?thesis by (simp add: sint_word_ariths)
qed

text \<open>
  The launch loop \<^verbatim>\<open>for i := int64(0); i < chunks; i++\<close>: the list of the ranges
  \<open>(start, end)\<close> handed to \<^verbatim>\<open>downloadChunk\<close>, in launch order.
\<close>

function chunk_loop :: "int64 \<Rightarrow> int64 \<Rightarrow> int64 \<Rightarrow> int64 \<Rightarrow> (int64 \<times> int64) list" where
  "chunk_loop i chunks chunkSize fileSize =
     (if i <s chunks then
        (let start = i * chunkSize;
             end0 = (i + 1) * chunkSize - 1;
             end1 = (if fileSize \<le>s end0 then fileSize - 1 else end0)
         in (start, end1) # chunk_loop (i + 1) chunks chunkSize fileSize)
      else [])"
  by pat_completeness auto
termination
proof (relation "measure (\<lambda>(i, chunks, chunkSize, fileSize). nat (sint chunks - sint i))")
  show "wf (measure (\<lambda>(i, chunks, chunkSize, fileSize). nat (sint chunks - sint i)))"
    by simp
next
  fix i chunks chunkSize fileSize :: int64 and x xa
  assume "i <s chunks"
  then show "((i + 1, chunks, chunkSize, fileSize), (i, chunks, chunkSize, fileSize))
      \<in> measure (\<lambda>(i, chunks, chunkSize, fileSize). nat (sint chunks - sint i))"
    using sint_succ_less [of i chunks] by (simp add: word_sless_alt)
qed

declare chunk_loop.simps [simp del]

text \<open>Planning as a whole: \<open>None\<close> is the run-time panic of an integer division by zero.\<close>

definition planChunks :: "int64 \<Rightarrow> int64 \<Rightarrow> (int64 \<times> int64) list option" where
  "planChunks fileSize threads =
     (case chunkSize_of fileSize threads of
        None \<Rightarrow> None
      | Some chunkSize \<Rightarrow>
          (case chunks_of fileSize chunkSize of
             None \<Rightarrow> None
           | Some chunks \<Rightarrow> Some (chunk_loop 0 chunks chunkSize fileSize)))"

text \<open>
  The words of the specification about a chunk sequence: consecutive chunks are
  contiguous (each starts one byte after the previous one ends), no two chunks share
  a byte offset, and the lengths \<open>end - start + 1\<close> add up.
\<close>

fun contiguous :: "(int64 \<times> int64) list \<Rightarrow> bool" where
  "contiguous [] = True"
| "contiguous [c] = True"
| "contiguous (c # d # cs) = (sint (snd c) + 1 = sint (fst d) \<and> contiguous (d # cs))"

definition byte_range :: "int64 \<times> int64 \<Rightarrow> int set" where
  "byte_range c = {sint (fst c) .. sint (snd c)}"

definition non_overlapping :: "(int64 \<times> int64) list \<Rightarrow> bool" where
  "non_overlapping cs =
     (\<forall>i < length cs. \<forall>j < length cs. i \<noteq> j \<longrightarrow> byte_range (cs ! i) \<inter> byte_range (cs ! j) = {})"

definition total_length :: "(int64 \<times> int64) list \<Rightarrow> int" where
  "total_length cs = (\<Sum>c\<leftarrow>cs. sint (snd c) - sint (fst c) + 1)"

section \<open>The size probe (getFileSize)\<close>

text \<open>
  \<^verbatim>\<open>strconv.ParseInt(s, 10, 64)\<close> as documented: an optional sign, then one or more decimal
  digits and nothing else; a value outside \<open>[-2^63, 2^63 - 1]\<close> is a range error. Both
  kinds of error are \<open>None\<close>.
\<close>

definition digit_of :: "char \<Rightarrow> int option" where
  "digit_of c = (let n = (of_char c :: int) in if 48 \<le> n \<and> n \<le> 57 then Some (n - 48) else None)"

fun parse_digits :: "int \<Rightarrow> string \<Rightarrow> int option" where
  "parse_digits acc [] = Some acc"
| "parse_digits acc (c # cs) =
     (case digit_of c of None \<Rightarrow> None | Some d \<Rightarrow> parse_digits (acc * 10 + d) cs)"

definition ParseUint :: "string \<Rightarrow> int option" where
  "ParseUint s = (if s = [] then None else parse_digits 0 s)"

definition ParseInt :: "string \<Rightarrow> int64 option" where
  "ParseInt s =
     (if s = [] then None
      else let neg = (hd s = CHR ''-'');
               s1 = (if hd s = CHR ''+'' \<or> hd s = CHR ''-'' then tl s else s)
           in case ParseUint s1 of
                None \<Rightarrow> None
              | Some un \<Rightarrow>
                  if \<not> neg \<and> 2 ^ 63 \<le> un then None
                  else if neg \<and> 2 ^ 63 < un then None
                  else Some (if neg then - word_of_int un else word_of_int un))"

text \<open>
  The outcome of \<^verbatim>\<open>http.Head(url)\<close> is the environment's: a transport error, or a response
  whose headers map a canonical name to its first value. \<^verbatim>\<open>Header.Get\<close> gives the empty
  string for a header that is absent.
\<close>

datatype head_result = HeadFailed | HeadResponse "string \<rightharpoonup> string"

definition Header_Get :: "(string \<rightharpoonup> string) \<Rightarrow> string \<Rightarrow> string" where
  "Header_Get h k = (case h k of None \<Rightarrow> [] | Some v \<Rightarrow> v)"

datatype probe_error = TransportError | RangeUnsupported | MissingLength | UnparsableLength

definition getFileSize :: "head_result \<Rightarrow> probe_error + int64" where
  "getFileSize r =
     (case r of
        HeadFailed \<Rightarrow> Inl TransportError
      | HeadResponse h \<Rightarrow>
          if Header_Get h ''Accept-Ranges'' \<noteq> ''bytes'' then Inl RangeUnsupported
          else let sizeStr = Header_Get h ''Content-Length'' in
            if sizeStr = [] then Inl MissingLength
            else (case ParseInt sizeStr of
                    None \<Rightarrow> Inl UnparsableLength
                  | Some sz \<Rightarrow> Inr sz))"

section \<open>The output file's name (getFileName, APS2; path.Base(url), APS1)\<close>

text \<open>\<^verbatim>\<open>path.Base\<close>, \<^verbatim>\<open>path.Ext\<close> and \<^verbatim>\<open>strings.TrimSuffix\<close> of Go's library.\<close>

definition Base :: "string \<Rightarrow> string" where
  "Base p =
     (if p = [] then ''.''
      else let r = dropWhile (\<lambda>c. c = CHR ''/'') (rev p);
               e = takeWhile (\<lambda>c. c \<noteq> CHR ''/'') r
           in if e = [] then ''/'' else rev e)"

definition Ext :: "string \<Rightarrow> string" where
  "Ext p =
     (let e = takeWhile (\<lambda>c. c \<noteq> CHR ''/'') (rev p)
      in if CHR ''.'' \<in> set e then CHR ''.'' # rev (takeWhile (\<lambda>c. c \<noteq> CHR ''.'') e) else [])"

definition HasSuffix :: "string \<Rightarrow> string \<Rightarrow> bool" where
  "HasSuffix s suffix = (length suffix \<le> length s \<and> drop (length s - length suffix) s = suffix)"

definition TrimSuffix :: "string \<Rightarrow> string \<Rightarrow> string" where
  "TrimSuffix s suffix = (if HasSuffix s suffix then take (length s - length suffix) s else s)"

text \<open>
  What \<^verbatim>\<open>url.Parse\<close> yields is the environment's: \<open>None\<close> for a parse error, or the URL's
  decoded path and its query values. \<^verbatim>\<open>Values.Get\<close> gives the first value of a key, or
  the empty string.
\<close>

record URL =
  Path :: string
  Query :: "string \<Rightarrow> string list"

definition Values_Get :: "(string \<Rightarrow> string list) \<Rightarrow> string \<Rightarrow> string" where
  "Values_Get vs k = (case vs k of [] \<Rightarrow> [] | v # _ \<Rightarrow> v)"

definition getFileName :: "URL option \<Rightarrow> string" where
  "getFileName parsed =
     (case parsed of
        None \<Rightarrow> ''output.dat''
      | Some u \<Rightarrow>
          let fileName = Base (Path u);
              ext = Values_Get (Query u) ''format''
          in if ext \<noteq> [] then TrimSuffix fileName (Ext fileName) @ ''.'' @ ext else fileName)"

text \<open>APS1 names the file \<^verbatim>\<open>path.Base(url)\<close>, of the URL string as typed.\<close>

definition fileName_APS1 :: "string \<Rightarrow> string" where
  "fileName_APS1 url = Base url"

section \<open>The output file and positional writes\<close>

type_synonym byte = "8 word"

text \<open>
  A file's content is its byte list. Writing \<open>p\<close> at offset \<open>off\<close> overwrites in place
  and, past the end, extends the file (a gap reads as zeros).
\<close>

definition write_bytes :: "byte list \<Rightarrow> nat \<Rightarrow> byte list \<Rightarrow> byte list" where
  "write_bytes f off p =
     (if p = [] then f
      else take off f @ replicate (off - length f) 0 @ p @ drop (off + length p) f)"

text \<open>
  \<^verbatim>\<open>(*os.File).WriteAt(b, off)\<close>: a negative offset is refused; an empty \<open>b\<close> makes no
  system call and cannot fail. Otherwise the operating system takes all of \<open>b\<close> (\<open>WOk\<close>)
  or fails after \<open>k\<close> bytes (\<open>WFault k\<close>): that is the environment's. The result is the
  count written and whether an error came with it.
\<close>

datatype wfault = WOk | WFault nat

definition WriteAt :: "wfault \<Rightarrow> byte list \<Rightarrow> int64 \<Rightarrow> nat \<times> bool" where
  "WriteAt w b off =
     (if off <s 0 then (0, True)
      else if b = [] then (0, False)
      else (case w of
              WOk \<Rightarrow> (length b, False)
            | WFault k \<Rightarrow> (min k (length b - 1), True)))"

section \<open>What a fetcher does, as a trace\<close>

text \<open>
  A fetcher's run is the sequence of its calls: \<open>EvWait n\<close> is \<^verbatim>\<open>rl.Wait(n)\<close>,
  \<open>EvRead n k\<close> a read of the response body into a buffer of \<open>n\<close> bytes that obtained
  \<open>k\<close> of them, and
  \<open>EvWriteAt off p n\<close> the call \<^verbatim>\<open>file.WriteAt(p, off)\<close> that wrote \<open>n\<close> bytes.
  \<^verbatim>\<open>Wait\<close> delays its caller and changes the limiter's tokens, never the bytes; the
  limiters themselves are modelled further down, and a trace's \<open>EvWait\<close> events are what
  they are asked for.
\<close>

datatype event = EvWait nat | EvRead nat nat | EvWriteAt int64 "byte list" nat

text \<open>
  The response body: the bytes still to come; how many of them are ready at each
  successive \<^verbatim>\<open>Read\<close> (once the list is used up, all of them); whether the reader reports
  the end together with the last bytes or on the next call; and whether the stream ends
  in a transport error rather than in \<^verbatim>\<open>io.EOF\<close>.
\<close>

record body_reader =
  remaining :: "byte list"
  avail :: "nat list"
  eager :: bool
  broken :: bool

datatype read_error = EOF | BodyError

definition body_Read :: "nat \<Rightarrow> body_reader \<Rightarrow> byte list \<times> read_error option \<times> body_reader" where
  "body_Read plen r =
     (if remaining r = [] then ([], Some (if broken r then BodyError else EOF), r)
      else let k = min plen (min (length (remaining r))
                     (case avail r of [] \<Rightarrow> length (remaining r) | a # _ \<Rightarrow> a));
               r' = r\<lparr>remaining := drop k (remaining r), avail := tl (avail r)\<rparr>
           in (take k (remaining r),
               (if remaining r' = [] \<and> eager r
                then Some (if broken r then BodyError else EOF) else None),
               r'))"

text \<open>
  \<^verbatim>\<open>rateLimitedReader.Read(p)\<close>, for a buffer of \<open>plen\<close> bytes: the buffer is cut to
  16 KiB, \<^verbatim>\<open>Wait\<close> is called with its length, then the body is read into it.
\<close>

definition Read :: "nat \<Rightarrow> body_reader \<Rightarrow> event list \<times> byte list \<times> read_error option \<times> body_reader" where
  "Read plen r =
     (let n = (if 16 * 1024 < plen then 16 * 1024 else plen);
          (d, e, r') = body_Read n r
      in ([EvWait n, EvRead n (length d)], d, e, r'))"

text \<open>
  \<^verbatim>\<open>sectionWriter.Write(p)\<close> at the writer's offset: the write, then
  \<^verbatim>\<open>sw.offset += int64(n)\<close>.
\<close>

definition Write :: "wfault \<Rightarrow> byte list \<Rightarrow> int64 \<Rightarrow> event \<times> nat \<times> bool \<times> int64" where
  "Write w p offset =
     (let (n, err) = WriteAt w p offset
      in (EvWriteAt offset p n, n, err, offset + of_nat n))"

text \<open>
  \<^verbatim>\<open>io.Copy(dst, src)\<close> of Go's library, for a source and a destination that are plain
  \<^verbatim>\<open>Reader\<close> and \<^verbatim>\<open>Writer\<close>: a 32 KiB buffer; each round reads, writes what was read,
  stops on a write error, on a short write, and on the reader's error (\<^verbatim>\<open>io.EOF\<close> is
  not an error of the copy). The list \<open>ws\<close> is the environment's outcome for each
  successive write (all go well once it is used up).
\<close>

datatype copy_error = ReadFailed | WriteFailed | ShortWrite

lemma body_Read_progress:
  assumes "body_Read plen r = (d, e, r')" "0 < plen" "d \<noteq> [] \<or> e = None"
  shows "length (remaining r') + length (avail r') < length (remaining r) + length (avail r)"
proof (cases "remaining r = []")
  case True
  then show ?thesis using assms by (auto simp: body_Read_def)
next
  case False
  let ?k = "min plen (min (length (remaining r))
                     (case avail r of [] \<Rightarrow> length (remaining r) | a # _ \<Rightarrow> a))"
  have r': "r' = r\<lparr>remaining := drop ?k (remaining r), avail := tl (avail r)\<rparr>"
    and d: "d = take ?k (remaining r)"
    using assms(1) False by (simp_all add: body_Read_def Let_def)
  show ?thesis
  proof (cases "avail r")
    case Nil
    then have "0 < ?k" using False assms(2) by simp
    then show ?thesis using r' False by (cases "remaining r") auto
  next
    case (Cons a as)
    then show ?thesis using r' by simp
  qed
qed

function io_Copy :: "wfault list \<Rightarrow> int64 \<Rightarrow> body_reader \<Rightarrow> event list \<times> copy_error option" where
  "io_Copy ws offset r =
     (case Read (32 * 1024) r of (evs, d, er, r') \<Rightarrow>
        if d \<noteq> [] then
          (case Write (case ws of [] \<Rightarrow> WOk | w # _ \<Rightarrow> w) d offset of (ev, nw, ew, offset') \<Rightarrow>
             if ew then (evs @ [ev], Some WriteFailed)
             else if length d \<noteq> nw then (evs @ [ev], Some ShortWrite)
             else (case er of
                     Some EOF \<Rightarrow> (evs @ [ev], None)
                   | Some BodyError \<Rightarrow> (evs @ [ev], Some ReadFailed)
                   | None \<Rightarrow>
                       (case io_Copy (tl ws) offset' r' of (evs', e') \<Rightarrow> (evs @ ev # evs', e'))))
        else (case er of
                Some EOF \<Rightarrow> (evs, None)
              | Some BodyError \<Rightarrow> (evs, Some ReadFailed)
              | None \<Rightarrow> (case io_Copy ws offset r' of (evs', e') \<Rightarrow> (evs @ evs', e'))))"
  by pat_completeness auto
termination
proof (relation "measure (\<lambda>(ws, offset, r). length (remaining r) + length (avail r))")
  show "wf (measure (\<lambda>(ws, offset, r). length (remaining r) + length (avail r)))" by simp
next
  fix ws :: "wfault list" and offset :: int64 and r x evs y d ya er r' xa ev yb nw yc ew offset'
  assume "(evs, y) = Read (32 * 1024) r" "(d, ya) = y" "(er, r') = ya" "d \<noteq> []"
    "er = None"
  then have "body_Read (16 * 1024) r = (d, er, r')"
    by (auto simp: Read_def Let_def split: prod.splits)
  from body_Read_progress [OF this] \<open>d \<noteq> []\<close>
  show "((tl ws, offset', r'), ws, offset, r)
           \<in> measure (\<lambda>(ws, offset, r). length (remaining r) + length (avail r))"
    by simp
next
  fix ws :: "wfault list" and offset :: int64 and r x evs y d ya er r'
  assume "(evs, y) = Read (32 * 1024) r" "(d, ya) = y" "(er, r') = ya" "\<not> d \<noteq> []"
    "er = None"
  then have "body_Read (16 * 1024) r = (d, er, r')"
    by (auto simp: Read_def Let_def split: prod.splits)
  from body_Read_progress [OF this] \<open>er = None\<close>
  show "((ws, offset, r'), ws, offset, r)
           \<in> measure (\<lambda>(ws, offset, r). length (remaining r) + length (avail r))"
    by simp
qed

declare io_Copy.simps [simp del]

section \<open>downloadChunk\<close>

text \<open>
  A fetch's environment: whether \<^verbatim>\<open>http.NewRequest\<close> succeeds, the response body that
  \<^verbatim>\<open>http.DefaultClient.Do\<close> yields (\<open>None\<close>: a transport error), and the outcome of each
  write. The fetcher returns nothing to its caller; \<open>outcome\<close> names the log line it ends
  on.
\<close>

record chunk_env =
  req_ok :: bool
  response :: "body_reader option"
  wfaults :: "wfault list"

datatype outcome = RequestError | DownloadError | OffsetError | CopyError copy_error | Downloaded

definition downloadChunk :: "chunk_env \<Rightarrow> int64 \<Rightarrow> int64 \<Rightarrow> event list \<times> outcome" where
  "downloadChunk ce start end' =
     (if \<not> req_ok ce then ([], RequestError)
      else (case response ce of
              None \<Rightarrow> ([], DownloadError)
            | Some body \<Rightarrow>
                (case WriteAt WOk [] start of (n0, err0) \<Rightarrow>
                   if err0 then ([EvWriteAt start [] n0], OffsetError)
                   else (case io_Copy (wfaults ce) start body of (evs, e) \<Rightarrow>
                           (EvWriteAt start [] n0 # evs,
                            (case e of None \<Rightarrow> Downloaded | Some ce \<Rightarrow> CopyError ce))))))"


section \<open>The run (runDownload, APS2; main, APS1)\<close>

text \<open>The effect of a fetcher's call on the file's content.\<close>

fun apply_event :: "byte list \<Rightarrow> event \<Rightarrow> byte list" where
  "apply_event f (EvWriteAt off p n) = write_bytes f (nat (sint off)) (take n p)"
| "apply_event f (EvWait n) = f"
| "apply_event f (EvRead n k) = f"

text \<open>
  The environment of a run: the answer to the size probe, the parsed URL, whether
  \<^verbatim>\<open>os.Create\<close> and \<^verbatim>\<open>Truncate\<close> succeed, the server's and the disk's behaviour for
  the fetch of each range, and the order in which the scheduler lets the goroutines'
  calls reach the file.
\<close>

record env =
  head :: head_result
  parsed :: "URL option"
  create_ok :: bool
  truncate_ok :: bool
  fetch :: "int64 \<Rightarrow> int64 \<Rightarrow> chunk_env"
  schedule :: "event list list \<Rightarrow> event list"

datatype status = ProbeFailed probe_error | Panicked | CreateFailed | TruncateFailed | Completed

type_synonym files = "string \<rightharpoonup> byte list"

text \<open>One goroutine per planned range: the traces of the fetchers, in launch order.\<close>

definition launch :: "env \<Rightarrow> (int64 \<times> int64) list \<Rightarrow> event list list" where
  "launch env cs =
     map (\<lambda>(start, end'). fst (downloadChunk (fetch env start end') start end')) cs"

text \<open>
  The run, for a given output file name: probe, plan (a division by zero panics),
  create, truncate to the size, launch, wait, and report completion. A negative size
  makes \<^verbatim>\<open>Truncate\<close> fail. The result is the run's status, the files, and the traces.
\<close>

definition run :: "string \<Rightarrow> env \<Rightarrow> int64 \<Rightarrow> files \<Rightarrow> status \<times> files \<times> event list list" where
  "run fileName env threads fs =
     (case getFileSize (head env) of
        Inl e \<Rightarrow> (ProbeFailed e, fs, [])
      | Inr fileSize \<Rightarrow>
          (case chunkSize_of fileSize threads of
             None \<Rightarrow> (Panicked, fs, [])
           | Some chunkSize \<Rightarrow>
               (case chunks_of fileSize chunkSize of
                  None \<Rightarrow> (Panicked, fs, [])
                | Some chunks \<Rightarrow>
                    if \<not> create_ok env then (CreateFailed, fs, [])
                    else if \<not> (truncate_ok env \<and> 0 \<le>s fileSize)
                    then (TruncateFailed, fs(fileName \<mapsto> []), [])
                    else let traces = launch env (chunk_loop 0 chunks chunkSize fileSize);
                             f = foldl apply_event (replicate (nat (sint fileSize)) 0)
                                   (schedule env traces)
                         in (Completed, fs(fileName \<mapsto> f), traces))))"

text \<open>
  \<^verbatim>\<open>runDownload(url, threads, limitMB)\<close> of APS2 and the body of \<^verbatim>\<open>main\<close> of APS1 differ
  in the file's name and in the limiter. The URL acts through the environment; the
  limit only sets the limiter's capacity, \<^verbatim>\<open>limitMB * 1024 * 1024\<close>.
\<close>

definition runDownload :: "env \<Rightarrow> string \<Rightarrow> int64 \<Rightarrow> int64 \<Rightarrow> files \<Rightarrow> status \<times> files \<times> event list list" where
  "runDownload env url threads limitMB fs = run (getFileName (parsed env)) env threads fs"

definition main_APS1 :: "env \<Rightarrow> string \<Rightarrow> int64 \<Rightarrow> int64 \<Rightarrow> files \<Rightarrow> status \<times> files \<times> event list list" where
  "main_APS1 env url threads limitMB fs = run (fileName_APS1 url) env threads fs"

definition limiter_capacity :: "int64 \<Rightarrow> int64" where
  "limiter_capacity limitMB = limitMB * 1024 * 1024"

section \<open>The rate limiters\<close>

subsection \<open>APS2: a token count under a mutex, refilled from the clock\<close>

text \<open>
  \<^verbatim>\<open>refill\<close> reads the clock and computes
  \<^verbatim>\<open>newTokens := int64(elapsed * float64(rl.bytesPerSec))\<close> in floating point. A clock
  reading and the value of that expression at it are the environment's observation
  \<open>(now, newTokens)\<close>; what \<^verbatim>\<open>refill\<close> does with them is the code's.
\<close>

record RateLimiter =
  bytesPerSec :: int64
  tokens :: int64
  lastRefill :: int

definition NewRateLimiter :: "int64 \<Rightarrow> int \<Rightarrow> RateLimiter" where
  "NewRateLimiter bps now = \<lparr>bytesPerSec = bps, tokens = bps, lastRefill = now\<rparr>"

definition refill :: "int \<times> int64 \<Rightarrow> RateLimiter \<Rightarrow> RateLimiter" where
  "refill obs rl =
     (case obs of (now, newTokens) \<Rightarrow>
        if 0 <s newTokens then
          (let t = tokens rl + newTokens
           in rl\<lparr>tokens := (if bytesPerSec rl <s t then bytesPerSec rl else t),
                 lastRefill := now\<rparr>)
        else rl)"

text \<open>
  \<^verbatim>\<open>Wait(n)\<close>: each round locks, refills, and either takes \<open>n\<close> tokens and returns or
  sleeps 10 ms and tries again. Each round uses up one observation; \<open>None\<close>: the
  observations are used up and the caller is still waiting.
\<close>

fun Wait :: "nat \<Rightarrow> RateLimiter \<Rightarrow> (int \<times> int64) list \<Rightarrow> (RateLimiter \<times> (int \<times> int64) list) option" where
  "Wait n rl [] = None"
| "Wait n rl (obs # clock) =
     (let rl' = refill obs rl
      in if of_nat n \<le>s tokens rl' then Some (rl'\<lparr>tokens := tokens rl' - of_nat n\<rparr>, clock)
         else Wait n rl' clock)"

text \<open>\<^verbatim>\<open>rateLimitedReader.Read\<close> with this limiter in place.\<close>

definition Read_APS2 ::
  "nat \<Rightarrow> RateLimiter \<Rightarrow> (int \<times> int64) list \<Rightarrow> body_reader \<Rightarrow>
   (RateLimiter \<times> (int \<times> int64) list \<times> byte list \<times> read_error option \<times> body_reader) option" where
  "Read_APS2 plen rl clock r =
     (let n = (if 16 * 1024 < plen then 16 * 1024 else plen)
      in (case Wait n rl clock of
            None \<Rightarrow> None
          | Some (rl', clock') \<Rightarrow> Some (rl', clock', body_Read n r)))"

subsection \<open>APS1: a buffered channel of unit tokens, filled by a ticker\<close>

text \<open>
  The channel holds \<open>queued\<close> tokens of at most \<open>capacity\<close>. The ticker's goroutine
  sends without blocking (a token is dropped when the channel is full); \<^verbatim>\<open>Wait(n)\<close>
  receives \<open>n\<close> times, one token each. How many sends the ticker attempts before each
  receive completes is the environment's (none once the list is used up); \<open>None\<close>: a
  receive finds the channel empty and no token comes.
\<close>

record ChanLimiter =
  capacity :: nat
  queued :: nat

definition NewRateLimiter_APS1 :: "int64 \<Rightarrow> ChanLimiter" where
  "NewRateLimiter_APS1 bps = \<lparr>capacity = nat (sint bps), queued = 0\<rparr>"

definition sends :: "nat \<Rightarrow> ChanLimiter \<Rightarrow> ChanLimiter" where
  "sends k rl = rl\<lparr>queued := min (capacity rl) (queued rl + k)\<rparr>"

fun Wait_APS1 :: "nat \<Rightarrow> ChanLimiter \<Rightarrow> nat list \<Rightarrow> (ChanLimiter \<times> nat list) option" where
  "Wait_APS1 0 rl es = Some (rl, es)"
| "Wait_APS1 (Suc n) rl es =
     (let rl1 = sends (case es of [] \<Rightarrow> 0 | e # _ \<Rightarrow> e) rl
      in if queued rl1 = 0 then None
         else Wait_APS1 n (rl1\<lparr>queued := queued rl1 - 1\<rparr>) (tl es))"

definition Read_APS1 ::
  "nat \<Rightarrow> ChanLimiter \<Rightarrow> nat list \<Rightarrow> body_reader \<Rightarrow>
   (ChanLimiter \<times> nat list \<times> byte list \<times> read_error option \<times> body_reader) option" where
  "Read_APS1 plen rl es r =
     (let n = (if 16 * 1024 < plen then 16 * 1024 else plen)
      in (case Wait_APS1 n rl es of
            None \<Rightarrow> None
          | Some (rl', es') \<Rightarrow> Some (rl', es', body_Read n r)))"

text \<open>A server that sends a length but no \<^verbatim>\<open>Accept-Ranges\<close> header.\<close>

definition no_ranges_env :: env where
  "no_ranges_env =
     \<lparr>head = HeadResponse [''Content-Length'' \<mapsto> ''10''], parsed = None,
      create_ok = True, truncate_ok = True,
      fetch = (\<lambda>s e. \<lparr>req_ok = True, response = None, wfaults = []\<rparr>),
      schedule = concat\<rparr>"

text \<open>A server with range support whose resource is empty: \<^verbatim>\<open>Content-Length: 0\<close>.\<close>

definition empty_file_env :: env where
  "empty_file_env =
     \<lparr>head = HeadResponse [''Accept-Ranges'' \<mapsto> ''bytes'', ''Content-Length'' \<mapsto> ''0''],
      parsed = Some \<lparr>Path = ''/f.bin'', Query = (\<lambda>k. [])\<rparr>,
      create_ok = True, truncate_ok = True,
      fetch = (\<lambda>s e. \<lparr>req_ok = True,
                        response = Some \<lparr>remaining = [], avail = [], eager = False, broken = False\<rparr>,
                        wfaults = []\<rparr>),
      schedule = concat\<rparr>"


text \<open>
  A trace is throttled when every read of the body comes right after a \<^verbatim>\<open>Wait\<close> for
  exactly the size of the read's buffer, that size is at most 16 KiB, and the read
  obtains no more than it; writes may stand anywhere between such pairs.
\<close>

fun throttled :: "event list \<Rightarrow> bool" where
  "throttled [] = True"
| "throttled (EvWait n # EvRead m k # evs) = (n = m \<and> n \<le> 16 * 1024 \<and> k \<le> n \<and> throttled evs)"
| "throttled (EvWriteAt off p n # evs) = throttled evs"
| "throttled (EvWait n # evs) = False"
| "throttled (EvRead m k # evs) = False"

text \<open>A response body of five bytes, all ready at once, its end reported on the next read.\<close>

definition five_bytes :: body_reader where
  "five_bytes = \<lparr>remaining = [1, 2, 3, 4, 5], avail = [], eager = False, broken = False\<rparr>"

text \<open>
  The tokens that entered the channel while \<^verbatim>\<open>Wait(n)\<close> was receiving: of the sends
  attempted before each receive, those that found room.
\<close>

fun accepted :: "nat \<Rightarrow> ChanLimiter \<Rightarrow> nat list \<Rightarrow> nat" where
  "accepted 0 rl es = 0"
| "accepted (Suc n) rl es =
     (let rl1 = sends (case es of [] \<Rightarrow> 0 | e # _ \<Rightarrow> e) rl
      in (queued rl1 - queued rl) + accepted n (rl1\<lparr>queued := queued rl1 - 1\<rparr>) (tl es))"

text \<open>The positional writes of a trace, in order: offset, buffer, and count written.\<close>

fun writes_of :: "event list \<Rightarrow> (int64 \<times> byte list \<times> nat) list" where
  "writes_of [] = []"
| "writes_of (EvWriteAt off p n # evs) = (off, p, n) # writes_of evs"
| "writes_of (EvWait n # evs) = writes_of evs"
| "writes_of (EvRead n k # evs) = writes_of evs"

text \<open>
  The write discipline of one fetcher, from cursor position \<open>c\<close>: each write is at the
  cursor, a write that is followed by another has written at least one byte, and the
  cursor moves on by the count written.
\<close>

fun chained :: "int \<Rightarrow> (int64 \<times> byte list \<times> nat) list \<Rightarrow> bool" where
  "chained c [] = True"
| "chained c ((off, p, n) # ws) =
     (sint off = c \<and> (ws \<noteq> [] \<longrightarrow> 0 < n) \<and> chained (c + int n) ws)"

text \<open>
  Writes that lay a body out from position \<open>c\<close>: each buffer is the next non-empty piece
  of the body, written at the position of that piece; only the last write may be short.
\<close>

fun laid :: "int \<Rightarrow> byte list \<Rightarrow> (int64 \<times> byte list \<times> nat) list \<Rightarrow> bool" where
  "laid c body [] = True"
| "laid c body ((off, p, n) # ws) =
     (sint off = c \<and> p \<noteq> [] \<and> n \<le> length p \<and> p = take (length p) body \<and>
      length p \<le> length body \<and> (ws \<noteq> [] \<longrightarrow> n = length p) \<and>
      laid (c + int (length p)) (drop (length p) body) ws)"

text \<open>Writes none of which is short.\<close>

definition full :: "(int64 \<times> byte list \<times> nat) list \<Rightarrow> bool" where
  "full ws = (\<forall>(off, p, n) \<in> set ws. n = length p)"







text \<open>
  The words of the specification: the part of a name before its extension, and the name
  with its extension replaced.
\<close>

definition stem :: "string \<Rightarrow> string" where
  "stem name =
     (if CHR ''.'' \<in> set name
      then rev (tl (dropWhile (\<lambda>c. c \<noteq> CHR ''.'') (rev name)))
      else name)"

definition replace_extension :: "string \<Rightarrow> string \<Rightarrow> string" where
  "replace_extension name ext = stem name @ ''.'' @ ext"

(*DEFS-END*)

section \<open>Facts about int64 arithmetic without overflow\<close>

lemma sint_add_no_ovf:
  fixes a b :: int64
  assumes "- (2^63) \<le> sint a + sint b" "sint a + sint b < 2^63"
  shows "sint (a + b) = sint a + sint b"
  using assms by (simp add: sint_word_ariths signed_take_bit_int_eq_self)

lemma sint_sub_no_ovf:
  fixes a b :: int64
  assumes "- (2^63) \<le> sint a - sint b" "sint a - sint b < 2^63"
  shows "sint (a - b) = sint a - sint b"
  using assms by (simp add: sint_word_ariths signed_take_bit_int_eq_self)

lemma sint_mult_no_ovf:
  fixes a b :: int64
  assumes "- (2^63) \<le> sint a * sint b" "sint a * sint b < 2^63"
  shows "sint (a * b) = sint a * sint b"
  using assms by (simp add: sint_word_ariths signed_take_bit_int_eq_self)

lemma chunk_loop_sint:
  fixes i chunks S F :: int64
  assumes "0 \<le> sint i" "0 < sint S" "sint chunks * sint S < 2^63" "0 < sint F"
  shows "map (map_prod sint sint) (chunk_loop i chunks S F) =
         map (\<lambda>k. (int k * sint S, min ((int k + 1) * sint S - 1) (sint F - 1)))
             [nat (sint i) ..< nat (sint chunks)]"
  using assms
proof (induction i chunks S F rule: chunk_loop.induct)
  case (1 i chunks S F)
  show ?case
  proof (cases "i <s chunks")
    case False
    then show ?thesis by (simp add: chunk_loop.simps [of i] word_sless_alt)
  next
    case True
    then have lt: "sint i < sint chunks" by (simp add: word_sless_alt)
    have s1: "sint (i + 1) = sint i + 1" using True by (rule sint_succ_less)
    have le: "(sint i + 1) * sint S \<le> sint chunks * sint S"
      using lt "1.prems" by (intro mult_right_mono) auto
    have ge0: "0 \<le> sint i * sint S" using "1.prems" by simp
    have le0: "sint i * sint S \<le> (sint i + 1) * sint S" using "1.prems" by (simp add: algebra_simps)
    have e1: "(sint i + 1) * sint S = sint i * sint S + sint S" by (simp add: algebra_simps)
    have u1: "(sint i + 1) * sint S < 2^63"
      using le "1.prems"(3) by (rule le_less_trans)
    have u0: "sint i * sint S < 2^63"
      using le0 u1 by (rule le_less_trans)
    have l0: "- (2^63) \<le> sint i * sint S"
      using ge0 by (rule order_trans [rotated]) simp
    have l1: "- (2^63) \<le> (sint i + 1) * sint S"
      using l0 le0 by (rule order_trans)
    note b1 = l0 u0 and b2 = l1 u1
    have m1: "sint (i * S) = sint i * sint S"
      using b1 by (rule sint_mult_no_ovf)
    have "sint ((i + 1) * S) = sint (i + 1) * sint S"
      using b2 unfolding s1 [symmetric] by (rule sint_mult_no_ovf)
    then have m2: "sint ((i + 1) * S) = (sint i + 1) * sint S" by (simp only: s1)
    have b3: "- (2^63) \<le> sint ((i + 1) * S) - sint (1::int64)" "sint ((i + 1) * S) - sint (1::int64) < 2^63"
      using b2 ge0 le0 unfolding m2 by simp_all
    have m3: "sint ((i + 1) * S - 1) = (sint i + 1) * sint S - 1"
      using sint_sub_no_ovf [OF b3] by (simp add: m2)
    have f1: "sint (F - 1) = sint F - 1"
      using "1.prems" sint_lt [of F] sint_sub_no_ovf [of F 1] by simp
    have nlt: "nat (sint i) < nat (sint chunks)" using lt "1.prems"(1) by simp
    have suc: "Suc (nat (sint i)) = nat (sint (i + 1))" using "1.prems"(1) by (simp add: s1 nat_add_distrib)
    have upt: "[nat (sint i) ..< nat (sint chunks)] = nat (sint i) # [nat (sint (i + 1)) ..< nat (sint chunks)]"
      using upt_conv_Cons [OF nlt] by (simp only: suc)
    have IH: "map (map_prod sint sint) (chunk_loop (i + 1) chunks S F) =
         map (\<lambda>k. (int k * sint S, min ((int k + 1) * sint S - 1) (sint F - 1)))
             [nat (sint (i + 1)) ..< nat (sint chunks)]"
      using "1.IH" [OF True refl refl refl] "1.prems" s1 by simp
    show ?thesis
      using "1.prems" by (simp add: chunk_loop.simps [of i] True upt IH m1 m3 f1 word_sle_eq Let_def min_def)
  qed
qed

lemma sint_of_int_64:
  assumes "- (2^63) \<le> k" "k < 2^63"
  shows "sint (word_of_int k :: int64) = k"
  using assms by (simp add: sint_sbintrunc' signed_take_bit_int_eq_self)

lemma sdiv_nonneg: "0 \<le> a \<Longrightarrow> 0 < b \<Longrightarrow> a sdiv b = a div (b::int)"
  by (cases "a = 0") (simp_all add: signed_divide_int_def)

lemma ceil_div_bounds:
  fixes F S :: int
  assumes "0 < S"
  shows "((F + S - 1) div S - 1) * S < F" and "F \<le> (F + S - 1) div S * S"
proof -
  let ?C = "(F + S - 1) div S"
  have eq: "?C * S + (F + S - 1) mod S = F + S - 1" by simp
  have r: "0 \<le> (F + S - 1) mod S" "(F + S - 1) mod S < S" using assms by simp_all
  have "?C * S \<le> F + S - 1" using eq r by linarith
  then show "(?C - 1) * S < F" by (simp add: algebra_simps)
  show "F \<le> ?C * S" using eq r by linarith
qed

lemma ceil_div_pos:
  fixes F S :: int
  assumes "0 < S" "0 < F"
  shows "0 < (F + S - 1) div S" "(F + S - 1) div S \<le> F"
proof -
  have "S \<le> F + S - 1" using assms by simp
  then have "S div S \<le> (F + S - 1) div S" using assms by (intro zdiv_mono1) auto
  then show "0 < (F + S - 1) div S" using assms by simp
  have "F + S - 1 \<le> F * S" 
  proof -
    have "0 \<le> (F - 1) * (S - 1)" using assms by simp
    then show ?thesis by (simp add: algebra_simps)
  qed
  then have "(F + S - 1) div S \<le> (F * S) div S" using assms by (intro zdiv_mono1) auto
  then show "(F + S - 1) div S \<le> F" using assms by simp
qed


lemma ceil_div64:
  fixes F X :: int64
  assumes F: "0 < sint F" and X: "0 < sint X" and nov: "sint F + sint X - 1 < 2^63"
  shows "\<exists>q. div64 (F + X - 1) X = Some q \<and> sint q = (sint F + sint X - 1) div sint X"
proof -
  let ?n = "sint F + sint X - 1"
  have X0: "X \<noteq> 0" using X by auto
  have w: "F + X - 1 = word_of_int ?n" by simp
  have n0: "0 \<le> ?n" using F X by simp
  have "- (2^63) \<le> (0::int)" by simp
  then have "- (2^63) \<le> ?n" using n0 by (rule order_trans)
  then have sn: "sint (F + X - 1) = ?n" unfolding w using nov by (rule sint_of_int_64)
  have q: "0 < ?n div sint X" "?n div sint X \<le> sint F"
    using ceil_div_pos [OF X F] by simp_all
  have "sint F < 2^63" using sint_lt [of F] by simp
  with q(2) have qu: "?n div sint X < 2^63" by (rule le_less_trans)
  have "- (2^63) < (0::int)" by simp
  then have "- (2^63) < ?n div sint X" using q(1) by (rule less_trans)
  then have ql: "- (2^63) \<le> ?n div sint X" by (rule less_imp_le)
  have sq: "sint (word_of_int (?n div sint X) :: int64) = ?n div sint X"
    using ql qu by (rule sint_of_int_64)
  have "div64 (F + X - 1) X = Some (word_of_int (?n div sint X))"
    unfolding div64_def sn sdiv_nonneg [OF n0 X] using X0 by simp
  with sq show ?thesis by blast
qed

lemma spair_nth:
  assumes "map (map_prod sint sint) cs = map g [0..<n]"
  shows "length cs = n" and "i < n \<Longrightarrow> sint (fst (cs ! i)) = fst (g i)"
    and "i < n \<Longrightarrow> sint (snd (cs ! i)) = snd (g i)"
proof -
  show len: "length cs = n" using assms by (metis length_map length_upt diff_zero)
  assume i: "i < n"
  have "map (map_prod sint sint) cs ! i = map g [0..<n] ! i" using assms by simp
  then have "map_prod sint sint (cs ! i) = g i" using i len by simp
  then show "sint (fst (cs ! i)) = fst (g i)" "sint (snd (cs ! i)) = snd (g i)"
    by (cases "cs ! i"; cases "g i"; simp)+
qed

lemma contiguous_nth:
  "contiguous cs \<longleftrightarrow> (\<forall>i. Suc i < length cs \<longrightarrow> sint (snd (cs ! i)) + 1 = sint (fst (cs ! Suc i)))"
proof (induction cs rule: contiguous.induct)
  case (3 c d cs)
  show ?case
  proof
    assume "contiguous (c # d # cs)"
    then have h: "sint (snd c) + 1 = sint (fst d)" and t: "contiguous (d # cs)" by simp_all
    show "\<forall>i. Suc i < length (c # d # cs) \<longrightarrow>
        sint (snd ((c # d # cs) ! i)) + 1 = sint (fst ((c # d # cs) ! Suc i))"
    proof (intro allI impI)
      fix i assume "Suc i < length (c # d # cs)"
      then show "sint (snd ((c # d # cs) ! i)) + 1 = sint (fst ((c # d # cs) ! Suc i))"
        using h t "3.IH" by (cases i) auto
    qed
  next
    assume a: "\<forall>i. Suc i < length (c # d # cs) \<longrightarrow>
        sint (snd ((c # d # cs) ! i)) + 1 = sint (fst ((c # d # cs) ! Suc i))"
    from a [rule_format, of 0] have h: "sint (snd c) + 1 = sint (fst d)" by simp
    have "\<forall>i. Suc i < length (d # cs) \<longrightarrow> sint (snd ((d # cs) ! i)) + 1 = sint (fst ((d # cs) ! Suc i))"
    proof (intro allI impI)
      fix i assume "Suc i < length (d # cs)"
      then show "sint (snd ((d # cs) ! i)) + 1 = sint (fst ((d # cs) ! Suc i))"
        using a [rule_format, of "Suc i"] by simp
    qed
    then show "contiguous (c # d # cs)" using h "3.IH" by simp
  qed
qed simp_all

lemma total_length_Cons: "total_length (c # cs) = sint (snd c) - sint (fst c) + 1 + total_length cs"
  by (simp add: total_length_def)

lemma total_length_contiguous:
  assumes "cs \<noteq> []" "contiguous cs"
  shows "total_length cs = sint (snd (last cs)) + 1 - sint (fst (hd cs))"
  using assms
proof (induction cs rule: contiguous.induct)
  case 1
  then show ?case by simp
next
  case (2 c)
  show ?case by (simp add: total_length_def)
next
  case (3 c d cs)
  have "total_length (d # cs) = sint (snd (last (d # cs))) + 1 - sint (fst (hd (d # cs)))"
    using 3 by simp
  moreover have "sint (snd c) + 1 = sint (fst d)" using "3.prems" by simp
  ultimately show ?case
    unfolding total_length_Cons [of c] by simp
qed

lemma planChunks_sint:
  fixes F T :: int64
  assumes F: "0 < sint F" and T: "0 < sint T"
    and nov1: "sint F + sint T - 1 < 2^63"
    and nov2: "sint F + (sint F + sint T - 1) div sint T - 1 < 2^63"
  shows "\<exists>cs. planChunks F T = Some cs \<and>
           map (map_prod sint sint) cs =
             map (\<lambda>k. (int k * ((sint F + sint T - 1) div sint T),
                         min ((int k + 1) * ((sint F + sint T - 1) div sint T) - 1) (sint F - 1)))
               [0..<nat ((sint F + (sint F + sint T - 1) div sint T - 1) div ((sint F + sint T - 1) div sint T))]"
proof -
  let ?S = "(sint F + sint T - 1) div sint T"
  let ?C = "(sint F + ?S - 1) div ?S"
  obtain Sw where Sw: "chunkSize_of F T = Some Sw" "sint Sw = ?S"
    using ceil_div64 [OF F T nov1] unfolding chunkSize_of_def by blast
  have Spos: "0 < sint Sw" using ceil_div_pos(1) [OF T F] Sw(2) by simp
  have nov2': "sint F + sint Sw - 1 < 2^63" using nov2 Sw(2) by simp
  obtain Cw where Cw: "chunks_of F Sw = Some Cw" "sint Cw = (sint F + sint Sw - 1) div sint Sw"
    using ceil_div64 [OF F Spos nov2'] unfolding chunks_of_def by blast
  have "sint Cw * sint Sw + (sint F + sint Sw - 1) mod sint Sw = sint F + sint Sw - 1"
    unfolding Cw(2) by simp
  moreover have "0 \<le> (sint F + sint Sw - 1) mod sint Sw" using Spos by simp
  ultimately have "sint Cw * sint Sw \<le> sint F + sint Sw - 1" by linarith
  then have bound: "sint Cw * sint Sw < 2^63" using nov2' by (rule le_less_trans)
  have z: "0 \<le> sint (0::int64)" by simp
  have "map (map_prod sint sint) (chunk_loop 0 Cw Sw F) =
         map (\<lambda>k. (int k * sint Sw, min ((int k + 1) * sint Sw - 1) (sint F - 1)))
             [nat (sint (0::int64)) ..< nat (sint Cw)]"
    using z Spos bound F by (rule chunk_loop_sint)
  then have "map (map_prod sint sint) (chunk_loop 0 Cw Sw F) =
         map (\<lambda>k. (int k * ?S, min ((int k + 1) * ?S - 1) (sint F - 1))) [0 ..< nat ?C]"
    unfolding Cw(2) Sw(2) by simp
  moreover have "planChunks F T = Some (chunk_loop 0 Cw Sw F)"
    by (simp add: planChunks_def Sw(1) Cw(1))
  ultimately show ?thesis by blast
qed

lemma chunk_start_in_file:
  fixes F S :: int
  assumes S: "0 < S" and k: "int k < (F + S - 1) div S"
  shows "int k * S \<le> F - 1"
proof -
  have "int k \<le> (F + S - 1) div S - 1" using k by simp
  then have "int k * S \<le> ((F + S - 1) div S - 1) * S"
    using S by (intro mult_right_mono) simp_all
  then show ?thesis using ceil_div_bounds(1) [OF S, of F] by linarith
qed

lemma chunk_inner_end:
  fixes F S :: int
  assumes S: "0 < S" and k: "int k + 1 < (F + S - 1) div S"
  shows "(int k + 1) * S - 1 < F - 1"
proof -
  have "int k + 1 \<le> (F + S - 1) div S - 1" using k by simp
  then have "(int k + 1) * S \<le> ((F + S - 1) div S - 1) * S"
    using S by (intro mult_right_mono) simp_all
  then show ?thesis using ceil_div_bounds(1) [OF S, of F] by linarith
qed

lemma chunk_last_end:
  fixes F S :: int
  assumes S: "0 < S" and k: "int k + 1 = (F + S - 1) div S"
  shows "F - 1 \<le> (int k + 1) * S - 1"
  using ceil_div_bounds(2) [OF S, of F] k by simp

lemma chunk_order:
  fixes S :: int
  assumes S: "0 < S" and ij: "i < (j::nat)"
  shows "(int i + 1) * S - 1 < int j * S"
proof -
  have "int i + 1 \<le> int j" using ij by simp
  then have "(int i + 1) * S \<le> int j * S" using S by (intro mult_right_mono) simp_all
  then show ?thesis by simp
qed

lemma sint_inj64:
  fixes a b :: int64
  assumes "sint a = sint b"
  shows "a = b"
proof -
  have "(word_of_int (sint a) :: int64) = word_of_int (sint b)" by (simp only: assms)
  then show ?thesis by simp
qed

lemma partition_of_chunk_list:
  fixes F S :: int and cs :: "(int64 \<times> int64) list"
  assumes S: "0 < S" and F: "0 < F"
    and cs: "map (map_prod sint sint) cs =
             map (\<lambda>k. (int k * S, min ((int k + 1) * S - 1) (F - 1))) [0..<nat ((F + S - 1) div S)]"
  shows "cs \<noteq> []" and "sint (fst (hd cs)) = 0" and "sint (snd (last cs)) = F - 1"
    and "contiguous cs" and "non_overlapping cs"
    and "\<forall>c \<in> set cs. sint (fst c) \<le> sint (snd c)"
    and "total_length cs = F"
proof -
  let ?C = "(F + S - 1) div S"
  let ?n = "nat ?C"
  let ?g = "\<lambda>k. (int k * S, min ((int k + 1) * S - 1) (F - 1))"
  have Cpos: "0 < ?C" using ceil_div_pos(1) [OF S F] .
  have len: "length cs = ?n" using cs by (rule spair_nth(1))
  have fsts: "sint (fst (cs ! i)) = int i * S" if "i < ?n" for i
    using spair_nth(2) [OF cs that] by simp
  have snds: "sint (snd (cs ! i)) = min ((int i + 1) * S - 1) (F - 1)" if "i < ?n" for i
    using spair_nth(3) [OF cs that] by simp
  have npos: "0 < ?n" using Cpos by simp
  show ne: "cs \<noteq> []" using len npos by auto
  show hd0: "sint (fst (hd cs)) = 0"
    using fsts [OF npos] ne by (simp add: hd_conv_nth)
  have lastk: "int (?n - 1) + 1 = ?C" using Cpos by simp
  have "sint (snd (cs ! (?n - 1))) = min ((int (?n - 1) + 1) * S - 1) (F - 1)"
    using npos by (intro snds) simp
  also have "\<dots> = F - 1" using chunk_last_end [OF S lastk] by simp
  finally show lst: "sint (snd (last cs)) = F - 1"
    using ne len by (simp add: last_conv_nth)
  have inner: "sint (snd (cs ! i)) = (int i + 1) * S - 1" if "Suc i < ?n" for i
  proof -
    have "int i + 1 < ?C" using that by simp
    then have "(int i + 1) * S - 1 < F - 1" using S by (intro chunk_inner_end)
    moreover have "i < ?n" using that by simp
    ultimately show ?thesis using snds [of i] by simp
  qed
  show ctg: "contiguous cs"
    unfolding contiguous_nth
  proof (intro allI impI)
    fix i assume "Suc i < length cs"
    then have i: "Suc i < ?n" using len by simp
    show "sint (snd (cs ! i)) + 1 = sint (fst (cs ! Suc i))"
      using inner [OF i] fsts [OF i] by (simp add: algebra_simps)
  qed
  have lt: "sint (snd (cs ! i)) < sint (fst (cs ! j))" if "i < j" "j < ?n" for i j
  proof -
    have i: "i < ?n" using that by simp
    have "sint (snd (cs ! i)) \<le> (int i + 1) * S - 1" using snds [OF i] by simp
    also have "\<dots> < int j * S" using S that(1) by (rule chunk_order)
    finally show ?thesis using fsts [OF that(2)] by simp
  qed
  have disj: "byte_range (cs ! i) \<inter> byte_range (cs ! j) = {}" if "i < j" "j < ?n" for i j
    using lt [OF that] by (auto simp: byte_range_def)
  show "non_overlapping cs"
    unfolding non_overlapping_def len
  proof (intro allI impI)
    fix i j assume ij: "i < ?n" "j < ?n" "i \<noteq> j"
    then consider "i < j" | "j < i" by linarith
    then show "byte_range (cs ! i) \<inter> byte_range (cs ! j) = {}"
    proof cases
      case 1 then show ?thesis using disj ij by simp
    next
      case 2 then show ?thesis using disj [of j i] ij by blast
    qed
  qed
  show "\<forall>c \<in> set cs. sint (fst c) \<le> sint (snd c)"
  proof
    fix c assume "c \<in> set cs"
    then obtain i where i: "i < ?n" "c = cs ! i" using len by (auto simp: in_set_conv_nth)
    have a: "int i * S \<le> F - 1" using S by (rule chunk_start_in_file) (use i in simp)
    have b: "int i * S \<le> (int i + 1) * S - 1" using S by (simp add: algebra_simps)
    show "sint (fst c) \<le> sint (snd c)"
      using a b fsts [OF i(1)] snds [OF i(1)] i(2) by simp
  qed
  show "total_length cs = F"
    using total_length_contiguous [OF ne ctg] hd0 lst by simp
qed

section \<open>Chunk planning: the spec's concrete scenarios\<close>

lemma planChunks_1000_4:
  "planChunks 1000 4 = Some [(0, 249), (250, 499), (500, 749), (750, 999)]"
  by (simp add: planChunks_def chunkSize_of_def chunks_of_def div64_def
      signed_divide_int_def chunk_loop.simps word_sless_alt word_sle_eq)

lemma planChunks_10_4:
  "planChunks 10 4 = Some [(0, 2), (3, 5), (6, 8), (9, 9)]"
  by (simp add: planChunks_def chunkSize_of_def chunks_of_def div64_def
      signed_divide_int_def chunk_loop.simps word_sless_alt word_sle_eq)


section \<open>Claim C2: partition correctness\<close>

text \<open>
  Claim C2 (partition correctness), as the code has it. For a positive file size and a
  positive thread count whose two rounding sums \<open>fileSize + threads - 1\<close> and
  \<open>fileSize + chunkSize - 1\<close> stay within int64, planning does not panic and the chunk
  sequence is non-empty, starts at offset 0, ends at \<open>fileSize - 1\<close>, is contiguous and
  non-overlapping, has no empty chunk, and its lengths add up to \<open>fileSize\<close>.
\<close>

theorem planChunks_partition:
  fixes fileSize threads :: int64
  assumes "0 < sint fileSize" and "0 < sint threads"
    and "sint fileSize + sint threads - 1 < 2^63"
    and "sint fileSize + (sint fileSize + sint threads - 1) div sint threads - 1 < 2^63"
  shows "\<exists>cs. planChunks fileSize threads = Some cs \<and> cs \<noteq> [] \<and>
           fst (hd cs) = 0 \<and> snd (last cs) = fileSize - 1 \<and>
           contiguous cs \<and> non_overlapping cs \<and>
           (\<forall>c \<in> set cs. fst c \<le>s snd c) \<and>
           total_length cs = sint fileSize"
proof -
  let ?S = "(sint fileSize + sint threads - 1) div sint threads"
  obtain cs where plan: "planChunks fileSize threads = Some cs"
    and cs: "map (map_prod sint sint) cs =
             map (\<lambda>k. (int k * ?S, min ((int k + 1) * ?S - 1) (sint fileSize - 1)))
               [0..<nat ((sint fileSize + ?S - 1) div ?S)]"
    using planChunks_sint [OF assms] by blast
  have S: "0 < ?S" using ceil_div_pos(1) [OF assms(2) assms(1)] .
  note P = partition_of_chunk_list [OF S assms(1) cs]
  have "sint (fst (hd cs)) = sint (0::int64)" using P(2) by simp
  then have h: "fst (hd cs) = 0" by (rule sint_inj64)
  have "sint (fileSize - 1) = sint fileSize - sint (1::int64)"
    using assms(1) sint_lt [of fileSize] by (intro sint_sub_no_ovf) simp_all
  then have "sint (snd (last cs)) = sint (fileSize - 1)" using P(3) by simp
  then have l: "snd (last cs) = fileSize - 1" by (rule sint_inj64)
  have "\<forall>c \<in> set cs. fst c \<le>s snd c" using P(6) by (simp add: word_sle_eq)
  with plan P(1) h l P(4) P(5) P(7) show ?thesis by blast
qed

theorem planChunks_partition_witness:
  "0 < sint (10::int64) \<and> 0 < sint (4::int64) \<and> sint (10::int64) + sint (4::int64) - 1 < 2^63 \<and>
   sint (10::int64) + (sint (10::int64) + sint (4::int64) - 1) div sint (4::int64) - 1 < 2^63 \<and>
   planChunks 10 4 = Some [(0, 2), (3, 5), (6, 8), (9, 9)] \<and>
   contiguous [(0, 2), (3, 5), (6, 8), (9, 9)] \<and>
   non_overlapping [(0, 2), (3, 5), (6, 8), (9, 9)] \<and>
   total_length [(0, 2), (3, 5), (6, 8), (9, 9)] = 10"
  using planChunks_partition [of 10 4] by (simp add: planChunks_10_4)

text \<open>
  Without the bound the claim fails: a file of \<open>2^63 - 1\<close> bytes and one thread give
  \<open>chunkSize = fileSize\<close>, the sum \<open>fileSize + chunkSize - 1\<close> wraps to \<open>-3\<close>, and the
  chunk count is 0: no chunk at all.
\<close>

theorem planChunks_overflow_counterexample:
  "0 < sint (9223372036854775807 :: int64) \<and> 0 < sint (1 :: int64) \<and>
   planChunks 9223372036854775807 1 = Some []"
  by (simp add: planChunks_def chunkSize_of_def chunks_of_def div64_def
      signed_divide_int_def chunk_loop.simps word_sless_alt)

text \<open>A thread count near the int64 maximum wraps the first sum and the run panics.\<close>

lemma planChunks_overflow_threads:
  "planChunks 10 9223372036854775807 = None"
  by (simp add: planChunks_def chunkSize_of_def chunks_of_def div64_def
      signed_divide_int_def)

section \<open>Claim C3: the size probe\<close>

lemma ParseInt_Nil: "ParseInt [] = None"
  by (simp add: ParseInt_def)

lemma getFileSize_error_iff:
  "(\<exists>e. getFileSize r = Inl e) \<longleftrightarrow>
     (r = HeadFailed \<or>
      (\<exists>h. r = HeadResponse h \<and>
         (Header_Get h ''Accept-Ranges'' \<noteq> ''bytes'' \<or> h ''Content-Length'' = None \<or>
          ParseInt (Header_Get h ''Content-Length'') = None)))"
proof (cases r)
  case HeadFailed
  then show ?thesis by (simp add: getFileSize_def)
next
  case (HeadResponse h)
  show ?thesis
  proof (cases "h ''Content-Length''")
    case None
    then show ?thesis using HeadResponse
      by (simp add: getFileSize_def Header_Get_def)
  next
    case (Some v)
    then show ?thesis using HeadResponse
      by (cases "ParseInt v") (auto simp: getFileSize_def Header_Get_def Let_def ParseInt_Nil)
  qed
qed

lemma getFileSize_success_iff:
  "getFileSize r = Inr n \<longleftrightarrow>
     (\<exists>h. r = HeadResponse h \<and> Header_Get h ''Accept-Ranges'' = ''bytes'' \<and>
          ParseInt (Header_Get h ''Content-Length'') = Some n)"
proof (cases r)
  case HeadFailed
  then show ?thesis by (simp add: getFileSize_def)
next
  case (HeadResponse h)
  then show ?thesis
    by (cases "ParseInt (Header_Get h ''Content-Length'')")
       (auto simp: getFileSize_def Let_def ParseInt_Nil)
qed

lemma run_probe_error:
  "getFileSize (head env) = Inl e \<Longrightarrow> run name env threads fs = (ProbeFailed e, fs, [])"
  by (simp add: run_def)

text \<open>
  Claim C3 (the size probe's contract). \<^verbatim>\<open>getFileSize\<close> returns an error exactly when
  the metadata request fails in transport, or the \<^verbatim>\<open>Accept-Ranges\<close> header is not the
  string \<^verbatim>\<open>bytes\<close>, or \<^verbatim>\<open>Content-Length\<close> is absent or does not parse as a base-10
  int64; it succeeds exactly with the parsed length; and when it errors, the run (of
  either variant) ends with that error and the files as they were: no output file is
  created.
\<close>

theorem getFileSize_contract:
  "((\<exists>e. getFileSize r = Inl e) \<longleftrightarrow>
      (r = HeadFailed \<or>
       (\<exists>h. r = HeadResponse h \<and>
          (Header_Get h ''Accept-Ranges'' \<noteq> ''bytes'' \<or> h ''Content-Length'' = None \<or>
           ParseInt (Header_Get h ''Content-Length'') = None)))) \<and>
   (getFileSize r = Inr n \<longleftrightarrow>
      (\<exists>h. r = HeadResponse h \<and> Header_Get h ''Accept-Ranges'' = ''bytes'' \<and>
           ParseInt (Header_Get h ''Content-Length'') = Some n)) \<and>
   (getFileSize (head env) = Inl e \<longrightarrow>
      runDownload env url threads limitMB fs = (ProbeFailed e, fs, []) \<and>
      main_APS1 env url threads limitMB fs = (ProbeFailed e, fs, []))"
  using getFileSize_error_iff [of r] getFileSize_success_iff [of r n]
  by (simp add: runDownload_def main_APS1_def run_probe_error)

theorem getFileSize_contract_witness:
  "getFileSize (head no_ranges_env) = Inl RangeUnsupported \<and>
   runDownload no_ranges_env ''http://h/f.bin'' 4 1 Map.empty = (ProbeFailed RangeUnsupported, Map.empty, []) \<and>
   getFileSize (HeadResponse [''Accept-Ranges'' \<mapsto> ''bytes'', ''Content-Length'' \<mapsto> ''10'']) = Inr 10"
proof -
  have a: "getFileSize (head no_ranges_env) = Inl RangeUnsupported"
    by (simp add: no_ranges_env_def getFileSize_def Header_Get_def)
  have b: "getFileSize (HeadResponse [''Accept-Ranges'' \<mapsto> ''bytes'', ''Content-Length'' \<mapsto> ''10'']) = Inr 10"
    by (simp add: getFileSize_def Header_Get_def ParseInt_def ParseUint_def digit_of_def)
  from getFileSize_contract [of "head no_ranges_env" 0 no_ranges_env RangeUnsupported "''http://h/f.bin''" 4 1 Map.empty] a b
  show ?thesis by simp
qed

section \<open>Claim C10: a zero-length target\<close>

lemma chunkSize_of_zero:
  fixes threads :: int64
  assumes "0 <s threads"
  shows "chunkSize_of 0 threads = Some 0"
proof -
  have pos: "0 < sint threads" using assms by (simp add: word_sless_alt)
  have ne: "threads \<noteq> 0" using pos by auto
  have "sint threads - sint (1::int64) < 2^63" using sint_lt [of threads] by simp
  moreover have "- (2^63) \<le> sint threads - sint (1::int64)" using pos by simp
  ultimately have s: "sint (threads - 1) = sint threads - 1"
    using sint_sub_no_ovf [of threads 1] by simp
  have "sint (threads - 1) sdiv sint threads = 0"
    unfolding s using pos by (simp add: sdiv_nonneg)
  then show ?thesis using ne by (simp add: chunkSize_of_def div64_def)
qed

lemma chunks_of_zero: "chunks_of fileSize 0 = None"
  by (simp add: chunks_of_def div64_def)

text \<open>
  Claim C10 (a zero-length target panics). When the probe reports a length of 0 and
  the thread count is positive, the chunk size is 0, the chunk count divides by it, and
  the run (of either variant) panics with the files as they were: no output file, not
  even an empty one, is created.
\<close>

theorem zero_length_panics:
  assumes "getFileSize (head env) = Inr 0" and "0 <s threads"
  shows "chunkSize_of 0 threads = Some 0 \<and> chunks_of 0 0 = None \<and>
         planChunks 0 threads = None \<and>
         runDownload env url threads limitMB fs = (Panicked, fs, []) \<and>
         main_APS1 env url threads limitMB fs = (Panicked, fs, [])"
  using assms chunkSize_of_zero [OF assms(2)]
  by (simp add: chunks_of_zero planChunks_def runDownload_def main_APS1_def run_def)

theorem zero_length_panics_witness:
  "getFileSize (head empty_file_env) = Inr 0 \<and> (0::int64) <s 4 \<and>
   runDownload empty_file_env ''http://h/f.bin'' 4 1 Map.empty = (Panicked, Map.empty, []) \<and>
   main_APS1 empty_file_env ''http://h/f.bin'' 4 1 Map.empty = (Panicked, Map.empty, [])"
proof -
  have a: "getFileSize (head empty_file_env) = Inr 0"
    by (simp add: empty_file_env_def getFileSize_def Header_Get_def ParseInt_def ParseUint_def
        digit_of_def)
  have b: "(0::int64) <s 4" by (simp add: word_sless_alt)
  from zero_length_panics [OF a b, of "''http://h/f.bin''" 1 Map.empty] a b
  show ?thesis by simp
qed

section \<open>Claim C4: the run completes whatever its fetchers do\<close>





section \<open>Claim C6: read quanta and the order of throttling\<close>

lemma body_Read_length:
  "body_Read n r = (d, e, r') \<Longrightarrow> length d \<le> n"
  by (auto simp: body_Read_def Let_def split: if_splits)

lemma Read_events:
  assumes "Read plen r = (evs, d, e, r')"
  shows "evs = [EvWait (min plen (16 * 1024)), EvRead (min plen (16 * 1024)) (length d)]"
    and "length d \<le> min plen (16 * 1024)"
    and "body_Read (min plen (16 * 1024)) r = (d, e, r')"
proof -
  have n: "(if 16 * 1024 < plen then 16 * 1024 else plen) = min plen 16384" by simp
  obtain d0 e0 r0 where b: "body_Read (min plen 16384) r = (d0, e0, r0)"
    by (cases "body_Read (min plen 16384) r") auto
  have "Read plen r = ([EvWait (min plen 16384), EvRead (min plen 16384) (length d0)], d0, e0, r0)"
    unfolding Read_def n Let_def b by simp
  with assms have eqs: "evs = [EvWait (min plen 16384), EvRead (min plen 16384) (length d0)]"
    "d = d0" "e = e0" "r' = r0" by auto
  show "evs = [EvWait (min plen (16 * 1024)), EvRead (min plen (16 * 1024)) (length d)]"
    using eqs by simp
  show "body_Read (min plen (16 * 1024)) r = (d, e, r')" using b eqs by simp
  then show "length d \<le> min plen (16 * 1024)" by (rule body_Read_length)
qed

lemma throttled_append:
  "throttled xs \<Longrightarrow> throttled ys \<Longrightarrow> throttled (xs @ ys)"
  by (induction xs rule: throttled.induct) simp_all

lemma throttled_Read:
  "Read plen r = (evs, d, e, r') \<Longrightarrow> throttled evs"
  using Read_events(1,2) [of plen r evs d e r'] by simp

lemma throttled_io_Copy:
  "throttled (fst (io_Copy ws offset r))"
proof (induction ws offset r rule: io_Copy.induct)
  case (1 ws offset r)
  obtain evs d er r' where R: "Read (32 * 1024) r = (evs, d, er, r')"
    by (cases "Read (32 * 1024) r") auto
  have te: "throttled evs" using R by (rule throttled_Read)
  show ?case
  proof (cases "d = []")
    case True
    show ?thesis
    proof (cases er)
      case None
      have "throttled (fst (io_Copy ws offset r'))"
        using "1.IH"(2) [OF R [symmetric] refl refl] True None by simp
      then show ?thesis
        using te True None R
        by (auto simp: io_Copy.simps [of ws offset r] throttled_append split: prod.splits)
    next
      case (Some a)
      then show ?thesis using te True R
        by (cases a) (simp_all add: io_Copy.simps [of ws offset r])
    qed
  next
    case False
    obtain ev nw ew offset' where W: "Write (case ws of [] \<Rightarrow> WOk | w # _ \<Rightarrow> w) d offset = (ev, nw, ew, offset')"
      by (cases "Write (case ws of [] \<Rightarrow> WOk | w # _ \<Rightarrow> w) d offset") auto
    obtain n where ev: "ev = EvWriteAt offset d n"
      using W by (auto simp: Write_def split: prod.splits)
    have t1: "throttled (evs @ [ev])" using te ev by (simp add: throttled_append)
    show ?thesis
    proof (cases "ew \<or> length d \<noteq> nw")
      case True
      then show ?thesis using t1 False R W
        by (auto simp: io_Copy.simps [of ws offset r])
    next
      case ok: False
      show ?thesis
      proof (cases er)
        case None
        have "throttled (fst (io_Copy (tl ws) offset' r'))"
          using "1.IH"(1) [OF R [symmetric] refl refl False W [symmetric] refl refl] ok None
          by simp
        then have "throttled (evs @ ev # fst (io_Copy (tl ws) offset' r'))"
          using te ev by (simp add: throttled_append)
        then show ?thesis using False R W ok None
          by (auto simp: io_Copy.simps [of ws offset r] split: prod.splits)
      next
        case (Some a)
        then show ?thesis using t1 False R W ok
          by (cases a) (simp_all add: io_Copy.simps [of ws offset r])
      qed
    qed
  qed
qed

lemma throttled_io_Copy_events:
  "io_Copy ws offset r = (evs, e) \<Longrightarrow> throttled evs"
  using throttled_io_Copy [of ws offset r] by simp

text \<open>
  Claim C6 (read quantization and throttle ordering). Whatever the server and the disk
  do, the trace of a fetcher is throttled: each read of the response body is into a
  buffer of at most 16 KiB and comes right after \<^verbatim>\<open>Wait\<close> was called with that buffer's
  size. For a single \<^verbatim>\<open>rateLimitedReader.Read\<close> with a buffer of \<open>plen\<close> bytes, the
  quantum is \<open>min plen (16 * 1024)\<close>, and the bytes obtained are no more.
\<close>

theorem fetcher_reads_are_throttled:
  "throttled (fst (downloadChunk ce start end')) \<and>
   fst (Read plen r) = [EvWait (min plen (16 * 1024)),
                         EvRead (min plen (16 * 1024)) (length (fst (snd (Read plen r))))] \<and>
   length (fst (snd (Read plen r))) \<le> min plen (16 * 1024) \<and> min plen (16 * 1024) \<le> 16 * 1024"
proof -
  obtain evs d e r' where R: "Read plen r = (evs, d, e, r')" by (cases "Read plen r") auto
  have "throttled (fst (downloadChunk ce start end'))"
    by (auto simp: downloadChunk_def throttled_io_Copy_events split: option.splits prod.splits)
  then show ?thesis using Read_events(1,2) [OF R] R by simp
qed

lemma downloadChunk_five_bytes:
  "downloadChunk \<lparr>req_ok = True, response = Some five_bytes, wfaults = []\<rparr> 3 7 =
     ([EvWriteAt 3 [] 0, EvWait 16384, EvRead 16384 5, EvWriteAt 3 [1, 2, 3, 4, 5] 5,
       EvWait 16384, EvRead 16384 0], Downloaded)"
  by (simp add: downloadChunk_def WriteAt_def word_sless_alt io_Copy.simps Read_def
      body_Read_def five_bytes_def Write_def)

theorem fetcher_reads_are_throttled_witness:
  "fst (downloadChunk \<lparr>req_ok = True, response = Some five_bytes, wfaults = []\<rparr> 3 7) =
     [EvWriteAt 3 [] 0, EvWait 16384, EvRead 16384 5, EvWriteAt 3 [1, 2, 3, 4, 5] 5,
      EvWait 16384, EvRead 16384 0] \<and>
   throttled (fst (downloadChunk \<lparr>req_ok = True, response = Some five_bytes, wfaults = []\<rparr> 3 7)) \<and>
   fst (Read (32 * 1024) five_bytes) = [EvWait 16384, EvRead 16384 5]"
proof -
  have a: "fst (downloadChunk \<lparr>req_ok = True, response = Some five_bytes, wfaults = []\<rparr> 3 7) =
     [EvWriteAt 3 [] 0, EvWait 16384, EvRead 16384 5, EvWriteAt 3 [1, 2, 3, 4, 5] 5,
      EvWait 16384, EvRead 16384 0]"
    by (simp add: downloadChunk_five_bytes)
  have b: "fst (Read (32 * 1024) five_bytes) = [EvWait 16384, EvRead 16384 5]"
    by (simp add: Read_def body_Read_def five_bytes_def)
  from fetcher_reads_are_throttled
    [of "\<lparr>req_ok = True, response = Some five_bytes, wfaults = []\<rparr>" 3 7 "32 * 1024" five_bytes]
  have "throttled (fst (downloadChunk \<lparr>req_ok = True, response = Some five_bytes, wfaults = []\<rparr> 3 7))"
    by blast
  with a b show ?thesis by blast
qed

section \<open>Claim C5: tokens and bytes of a read\<close>

lemma Wait_takes:
  assumes "Wait n rl clock = Some (rl', clock')"
  shows "\<exists>k < length clock. clock' = drop (Suc k) clock \<and>
           of_nat n \<le>s tokens (fold refill (take (Suc k) clock) rl) \<and>
           rl' = (fold refill (take (Suc k) clock) rl)
                   \<lparr>tokens := tokens (fold refill (take (Suc k) clock) rl) - of_nat n\<rparr>"
  using assms
proof (induction clock arbitrary: rl)
  case Nil
  then show ?case by simp
next
  case (Cons obs clock)
  show ?case
  proof (cases "of_nat n \<le>s tokens (refill obs rl)")
    case True
    then have "rl' = (refill obs rl)\<lparr>tokens := tokens (refill obs rl) - of_nat n\<rparr>" "clock' = clock"
      using Cons.prems by (simp_all add: Let_def)
    then show ?thesis using True by (intro exI [of _ 0]) simp
  next
    case False
    then have "Wait n (refill obs rl) clock = Some (rl', clock')"
      using Cons.prems by (simp add: Let_def)
    from Cons.IH [OF this] obtain k where k: "k < length clock" "clock' = drop (Suc k) clock"
      "of_nat n \<le>s tokens (fold refill (take (Suc k) clock) (refill obs rl))"
      "rl' = (fold refill (take (Suc k) clock) (refill obs rl))
                   \<lparr>tokens := tokens (fold refill (take (Suc k) clock) (refill obs rl)) - of_nat n\<rparr>"
      by blast
    then show ?thesis by (intro exI [of _ "Suc k"]) simp
  qed
qed

lemma sends_capacity [simp]: "capacity (sends k rl) = capacity rl"
  by (simp add: sends_def)

lemma queued_sends_ge: "queued rl \<le> capacity rl \<Longrightarrow> queued rl \<le> queued (sends k rl)"
  by (simp add: sends_def)

lemma Wait_APS1_takes:
  assumes "Wait_APS1 n rl es = Some (rl', es')" and "queued rl \<le> capacity rl"
  shows "queued rl' + n = queued rl + accepted n rl es \<and> es' = drop n es \<and>
         capacity rl' = capacity rl \<and> queued rl' \<le> capacity rl'"
  using assms
proof (induction n arbitrary: rl es)
  case 0
  then show ?case by simp
next
  case (Suc n)
  let ?rl1 = "sends (case es of [] \<Rightarrow> 0 | e # _ \<Rightarrow> e) rl"
  have q: "queued ?rl1 \<noteq> 0" using Suc.prems(1) by (auto simp: Let_def split: if_splits)
  have w: "Wait_APS1 n (?rl1\<lparr>queued := queued ?rl1 - 1\<rparr>) (tl es) = Some (rl', es')"
    using Suc.prems(1) q by (simp add: Let_def)
  have c: "queued (?rl1\<lparr>queued := queued ?rl1 - 1\<rparr>) \<le> capacity (?rl1\<lparr>queued := queued ?rl1 - 1\<rparr>)"
    by (simp add: sends_def)
  have ge: "queued rl \<le> queued ?rl1" using Suc.prems(2) by (rule queued_sends_ge)
  from Suc.IH [OF w c] have IH: "queued rl' + n = queued ?rl1 - 1 + accepted n (?rl1\<lparr>queued := queued ?rl1 - 1\<rparr>) (tl es)"
    "es' = drop n (tl es)" "capacity rl' = capacity rl" "queued rl' \<le> capacity rl'"
    by simp_all
  have "queued rl' + Suc n = queued rl + accepted (Suc n) rl es"
    using IH(1) q ge by (simp add: Let_def)
  moreover have "es' = drop (Suc n) es" using IH(2) by (simp add: drop_Suc)
  ultimately show ?case using IH(3,4) by simp
qed

text \<open>
  Claim C5 (tokens and bytes), as the code has it. A read through the rate-limited
  reader takes from the limiter exactly as many tokens as its buffer has bytes, cut to
  16 KiB: with the mutex limiter of APS2 the tokens after the read are the refilled
  tokens less that number, with the channel limiter of APS1 the channel loses that
  number of tokens against those that came in. The bytes the read obtains are at most
  that number; they are not what is charged.
\<close>

theorem Read_takes_buffer_tokens:
  "(Read_APS2 plen rl clock r = Some (rl', clock', d, e, r') \<longrightarrow>
      (\<exists>k < length clock. clock' = drop (Suc k) clock \<and>
         tokens rl' = tokens (fold refill (take (Suc k) clock) rl) - of_nat (min plen (16 * 1024))) \<and>
      length d \<le> min plen (16 * 1024)) \<and>
   (Read_APS1 plen cl es r = Some (cl', es', d1, e1, r1) \<and> queued cl \<le> capacity cl \<longrightarrow>
      queued cl' + min plen (16 * 1024) = queued cl + accepted (min plen (16 * 1024)) cl es \<and>
      length d1 \<le> min plen (16 * 1024))"
proof (intro conjI impI)
  have n: "(if 16 * 1024 < plen then 16 * 1024 else plen) = min plen 16384" by simp
  {
    assume a: "Read_APS2 plen rl clock r = Some (rl', clock', d, e, r')"
    then have w: "Wait (min plen 16384) rl clock = Some (rl', clock')"
      and b: "body_Read (min plen 16384) r = (d, e, r')"
      unfolding Read_APS2_def n Let_def by (auto split: option.splits)
    from Wait_takes [OF w] obtain k where "k < length clock" "clock' = drop (Suc k) clock"
      "rl' = (fold refill (take (Suc k) clock) rl)
                   \<lparr>tokens := tokens (fold refill (take (Suc k) clock) rl) - of_nat (min plen 16384)\<rparr>"
      by blast
    then show "\<exists>k < length clock. clock' = drop (Suc k) clock \<and>
         tokens rl' = tokens (fold refill (take (Suc k) clock) rl) - of_nat (min plen (16 * 1024))"
      by (intro exI [of _ k]) simp
    show "length d \<le> min plen (16 * 1024)" using body_Read_length [OF b] by simp
  }
  {
    assume a: "Read_APS1 plen cl es r = Some (cl', es', d1, e1, r1) \<and> queued cl \<le> capacity cl"
    then have w: "Wait_APS1 (min plen 16384) cl es = Some (cl', es')"
      and b: "body_Read (min plen 16384) r = (d1, e1, r1)"
      unfolding Read_APS1_def n Let_def by (auto split: option.splits)
    from Wait_APS1_takes [OF w] a
    show "queued cl' + min plen (16 * 1024) = queued cl + accepted (min plen (16 * 1024)) cl es"
      by simp
    show "length d1 \<le> min plen (16 * 1024)" using body_Read_length [OF b] by simp
  }
qed

lemma Wait_first_round:
  "Wait 16384 (NewRateLimiter 1048576 0) [(0, 0)] =
     Some (\<lparr>bytesPerSec = 1048576, tokens = 1032192, lastRefill = 0\<rparr>, [])"
  by (simp add: NewRateLimiter_def refill_def word_sless_alt word_sle_eq)

lemma body_Read_five_bytes:
  "body_Read 16384 five_bytes = ([1, 2, 3, 4, 5], None, five_bytes\<lparr>remaining := []\<rparr>)"
  by (simp add: body_Read_def five_bytes_def)

text \<open>
  The claim as stated fails: a read of \<^verbatim>\<open>io.Copy\<close> (a 32 KiB buffer) that finds five
  bytes in the body has taken 16384 tokens for them.
\<close>

theorem Read_overcharges_counterexample:
  "Read_APS2 (32 * 1024) (NewRateLimiter 1048576 0) [(0, 0)] five_bytes =
     Some (\<lparr>bytesPerSec = 1048576, tokens = 1048576 - 16384, lastRefill = 0\<rparr>, [],
           [1, 2, 3, 4, 5], None, five_bytes\<lparr>remaining := []\<rparr>)"
  by (simp add: Read_APS2_def Wait_first_round body_Read_five_bytes del: Wait.simps)

lemma Wait_APS1_four:
  "Wait_APS1 (Suc (Suc (Suc (Suc 0)))) \<lparr>capacity = 10, queued = 1\<rparr> [0, 5] =
     Some (\<lparr>capacity = 10, queued = 2\<rparr>, [])"
  by (simp add: sends_def)

lemma accepted_four:
  "accepted (Suc (Suc (Suc (Suc 0)))) \<lparr>capacity = 10, queued = 1\<rparr> [0, 5] = 5"
  by (simp add: sends_def)

lemma four: "(4::nat) = Suc (Suc (Suc (Suc 0)))" by simp

lemma body_Read_four_of_five:
  "body_Read 4 five_bytes = ([1, 2, 3, 4], None, five_bytes\<lparr>remaining := [5]\<rparr>)"
  by (simp add: body_Read_def five_bytes_def)

lemma Read_APS1_four:
  "Read_APS1 4 \<lparr>capacity = 10, queued = 1\<rparr> [0, 5] five_bytes =
     Some (\<lparr>capacity = 10, queued = 2\<rparr>, [], [1, 2, 3, 4], None, five_bytes\<lparr>remaining := [5]\<rparr>)"
proof -
  have "Wait_APS1 4 \<lparr>capacity = 10, queued = 1\<rparr> [0, 5] = Some (\<lparr>capacity = 10, queued = 2\<rparr>, [])"
    unfolding four by (rule Wait_APS1_four)
  then show ?thesis by (simp add: Read_APS1_def body_Read_four_of_five)
qed

theorem Read_takes_buffer_tokens_witness:
  "Read_APS2 (32 * 1024) (NewRateLimiter 1048576 0) [(0, 0)] five_bytes =
     Some (\<lparr>bytesPerSec = 1048576, tokens = 1032192, lastRefill = 0\<rparr>, [],
           [1, 2, 3, 4, 5], None, five_bytes\<lparr>remaining := []\<rparr>) \<and>
   tokens (fold refill [(0, 0)] (NewRateLimiter 1048576 0)) - 16384 = 1032192 \<and>
   Read_APS1 4 \<lparr>capacity = 10, queued = 1\<rparr> [0, 5] five_bytes =
     Some (\<lparr>capacity = 10, queued = 2\<rparr>, [], [1, 2, 3, 4], None, five_bytes\<lparr>remaining := [5]\<rparr>) \<and>
   2 + 4 = 1 + accepted 4 \<lparr>capacity = 10, queued = 1\<rparr> [0, 5]"
proof -
  have a: "Read_APS2 (32 * 1024) (NewRateLimiter 1048576 0) [(0, 0)] five_bytes =
     Some (\<lparr>bytesPerSec = 1048576, tokens = 1032192, lastRefill = 0\<rparr>, [],
           [1, 2, 3, 4, 5], None, five_bytes\<lparr>remaining := []\<rparr>)"
    by (simp add: Read_APS2_def Wait_first_round body_Read_five_bytes del: Wait.simps)
  have c: "tokens (fold refill [(0, 0)] (NewRateLimiter 1048576 0)) - 16384 = 1032192"
    by (simp add: NewRateLimiter_def refill_def word_sless_alt)
  have d: "accepted 4 \<lparr>capacity = 10, queued = 1\<rparr> [0, 5] = 5"
    unfolding four by (rule accepted_four)
  have e: "queued \<lparr>capacity = 10, queued = 1\<rparr> \<le> capacity \<lparr>capacity = 10, queued = 1\<rparr>" by simp
  note T = Read_takes_buffer_tokens [where plen = 4 and cl = "\<lparr>capacity = 10, queued = 1\<rparr>"
      and es = "[0, 5]" and r = five_bytes and cl' = "\<lparr>capacity = 10, queued = 2\<rparr>" and es' = "[]"
      and ?d1.0 = "[1, 2, 3, 4]" and ?e1.0 = None and ?r1.0 = "five_bytes\<lparr>remaining := [5]\<rparr>"]
  from T Read_APS1_four e
  have "queued \<lparr>capacity = 10, queued = 2\<rparr> + min 4 (16 * 1024) =
        queued \<lparr>capacity = 10, queued = 1\<rparr> + accepted (min 4 (16 * 1024)) \<lparr>capacity = 10, queued = 1\<rparr> [0, 5]"
    by blast
  then have "2 + 4 = 1 + accepted 4 \<lparr>capacity = 10, queued = 1\<rparr> [0, 5]"
    by (simp del: accepted.simps)
  with a c Read_APS1_four show ?thesis by blast
qed

section \<open>The writes of a fetcher\<close>

lemma writes_of_append: "writes_of (xs @ ys) = writes_of xs @ writes_of ys"
  by (induction xs rule: writes_of.induct) simp_all

lemma body_Read_data:
  assumes "body_Read n r = (d, e, r')"
  shows "remaining r = d @ remaining r'" and "e \<noteq> None \<Longrightarrow> remaining r' = []"
  using assms by (auto simp: body_Read_def Let_def split: if_splits)

lemma Read_data:
  assumes "Read plen r = (evs, d, e, r')"
  shows "remaining r = d @ remaining r'" and "e \<noteq> None \<Longrightarrow> remaining r' = []"
    and "writes_of evs = []"
  using body_Read_data [OF Read_events(3) [OF assms]] Read_events(1) [OF assms] by simp_all

lemma Write_result:
  assumes "Write w p offset = (ev, n, err, offset')"
  shows "ev = EvWriteAt offset p n" and "offset' = offset + of_nat n" and "n \<le> length p"
  using assms by (auto simp: Write_def WriteAt_def split: prod.splits if_splits wfault.splits)

lemma sint_add_of_nat:
  fixes offset :: int64
  assumes "0 \<le> sint offset" "sint offset + int n < 2^63"
  shows "sint (offset + of_nat n) = sint offset + int n"
proof -
  have "offset + of_nat n = word_of_int (sint offset + int n)" by simp
  moreover have "(0::int) \<le> sint offset + int n" using assms(1) by simp
  then have "- (2^63) \<le> sint offset + int n"
    by (rule order_trans [rotated]) simp
  ultimately show ?thesis using assms(2) by (simp only: sint_of_int_64)
qed

lemma io_Copy_laid:
  assumes "0 \<le> sint offset" "sint offset + int (length (remaining r)) < 2^63"
  shows "laid (sint offset) (remaining r) (writes_of (fst (io_Copy ws offset r))) \<and>
         (snd (io_Copy ws offset r) = None \<longrightarrow>
            full (writes_of (fst (io_Copy ws offset r))) \<and>
            concat (map (\<lambda>(off, p, n). p) (writes_of (fst (io_Copy ws offset r)))) = remaining r)"
  using assms
proof (induction ws offset r rule: io_Copy.induct)
  case (1 ws offset r)
  obtain evs d er r' where R: "Read (32 * 1024) r = (evs, d, er, r')"
    by (cases "Read (32 * 1024) r") auto
  note RD = Read_data [OF R]
  show ?case
  proof (cases "d = []")
    case True
    then have same: "remaining r' = remaining r" using RD(1) by simp
    show ?thesis
    proof (cases er)
      case None
      have IH: "laid (sint offset) (remaining r') (writes_of (fst (io_Copy ws offset r'))) \<and>
         (snd (io_Copy ws offset r') = None \<longrightarrow>
            full (writes_of (fst (io_Copy ws offset r'))) \<and>
            concat (map (\<lambda>(off, p, n). p) (writes_of (fst (io_Copy ws offset r')))) = remaining r')"
        using "1.IH"(2) [OF R [symmetric] refl refl] True None "1.prems" same by simp
      have eq: "io_Copy ws offset r = (evs @ fst (io_Copy ws offset r'), snd (io_Copy ws offset r'))"
        using True None R by (simp add: io_Copy.simps [of ws offset r] split: prod.splits)
      show ?thesis using IH RD(3) same by (simp add: eq writes_of_append)
    next
      case (Some a)
      then have "remaining r = []" using RD(2) same by simp
      moreover have "io_Copy ws offset r = (evs, if a = EOF then None else Some ReadFailed)"
        using True Some R by (cases a) (simp_all add: io_Copy.simps [of ws offset r])
      ultimately show ?thesis using RD(3) by (simp add: full_def)
    qed
  next
    case False
    obtain ev nw ew offset' where W: "Write (case ws of [] \<Rightarrow> WOk | w # _ \<Rightarrow> w) d offset = (ev, nw, ew, offset')"
      by (cases "Write (case ws of [] \<Rightarrow> WOk | w # _ \<Rightarrow> w) d offset") auto
    note WR = Write_result [OF W]
    have dpre: "d = take (length d) (remaining r)" "length d \<le> length (remaining r)"
      and rest: "remaining r' = drop (length d) (remaining r)"
      using RD(1) by simp_all
    have one: "laid (sint offset) (remaining r) [(offset, d, nw)]"
      using False WR(3) dpre by simp
    show ?thesis
    proof (cases "ew \<or> length d \<noteq> nw")
      case True
      then have "\<exists>x. io_Copy ws offset r = (evs @ [ev], Some x)"
        using False R W by (auto simp: io_Copy.simps [of ws offset r])
      then show ?thesis using one RD(3) WR(1) by (auto simp: writes_of_append)
    next
      case ok: False
      then have nw: "nw = length d" by simp
      show ?thesis
      proof (cases er)
        case (Some a)
        then have "remaining r' = []" using RD(2) by simp
        then have all: "remaining r = d" using RD(1) by simp
        have "io_Copy ws offset r = (evs @ [ev], if a = EOF then None else Some ReadFailed)"
          using False Some R W ok by (cases a) (simp_all add: io_Copy.simps [of ws offset r])
        then show ?thesis using one RD(3) WR(1) all nw
          by (simp add: writes_of_append full_def)
      next
        case None
        have b1: "sint offset + int (length d) < 2^63"
          using "1.prems"(2) dpre(2) by linarith
        have so: "sint offset' = sint offset + int (length d)"
          unfolding WR(2) nw using "1.prems"(1) b1 by (rule sint_add_of_nat)
        have p1: "0 \<le> sint offset'" using so "1.prems"(1) by simp
        have p2: "sint offset' + int (length (remaining r')) < 2^63"
          using so rest dpre(2) "1.prems"(2) by simp
        have IH: "laid (sint offset') (remaining r') (writes_of (fst (io_Copy (tl ws) offset' r'))) \<and>
         (snd (io_Copy (tl ws) offset' r') = None \<longrightarrow>
            full (writes_of (fst (io_Copy (tl ws) offset' r'))) \<and>
            concat (map (\<lambda>(off, p, n). p) (writes_of (fst (io_Copy (tl ws) offset' r')))) = remaining r')"
          using "1.IH"(1) [OF R [symmetric] refl refl False W [symmetric] refl refl _ _ None p1 p2] ok
          by simp
        have eq: "io_Copy ws offset r =
            (evs @ ev # fst (io_Copy (tl ws) offset' r'), snd (io_Copy (tl ws) offset' r'))"
          using False None R W ok by (simp add: io_Copy.simps [of ws offset r] split: prod.splits)
        have w: "writes_of (fst (io_Copy ws offset r)) =
                   (offset, d, length d) # writes_of (fst (io_Copy (tl ws) offset' r'))"
          using RD(3) WR(1) nw by (simp add: eq writes_of_append)
        have l: "laid (sint offset) (remaining r) (writes_of (fst (io_Copy ws offset r)))"
          unfolding w using IH False dpre so rest by simp
        have c: "snd (io_Copy ws offset r) = None \<longrightarrow>
            full (writes_of (fst (io_Copy ws offset r))) \<and>
            concat (map (\<lambda>(off, p, n). p) (writes_of (fst (io_Copy ws offset r)))) = remaining r"
          unfolding w using IH RD(1) by (simp add: eq full_def)
        show ?thesis using l c by simp
      qed
    qed
  qed
qed

lemma laid_chained: "laid c body ws \<Longrightarrow> chained c ws"
proof (induction ws arbitrary: c body)
  case Nil
  then show ?case by simp
next
  case (Cons w ws)
  obtain off p n where w: "w = (off, p, n)" by (cases w) auto
  show ?case
  proof (cases "ws = []")
    case True
    then show ?thesis using Cons.prems w by simp
  next
    case False
    then have "n = length p" "laid (c + int (length p)) (drop (length p) body) ws"
      using Cons.prems w by simp_all
    then show ?thesis using Cons.IH [of "c + int (length p)" "drop (length p) body"] Cons.prems w
      by auto
  qed
qed

lemma laid_member:
  assumes "laid c body ws" "(off, p, n) \<in> set ws"
  shows "c \<le> sint off \<and> sint off + int (length p) \<le> c + int (length body) \<and> n \<le> length p \<and>
         (\<forall>i < length p. p ! i = body ! (nat (sint off - c) + i))"
  using assms
proof (induction ws arbitrary: c body)
  case Nil
  then show ?case by simp
next
  case (Cons w ws)
  obtain off' p' n' where w: "w = (off', p', n')" by (cases w) auto
  have hd: "sint off' = c" "n' \<le> length p'" "p' = take (length p') body"
    "length p' \<le> length body" "laid (c + int (length p')) (drop (length p') body) ws"
    using Cons.prems(1) w by simp_all
  show ?case
  proof (cases "(off, p, n) = w")
    case True
    then have e: "off = off'" "p = p'" "n = n'" using w by simp_all
    have "\<forall>i < length p'. p' ! i = body ! i"
    proof (intro allI impI)
      fix i assume "i < length p'"
      then have "take (length p') body ! i = body ! i" by simp
      then show "p' ! i = body ! i" using hd(3) by simp
    qed
    then show ?thesis using hd e by simp
  next
    case False
    then have "(off, p, n) \<in> set ws" using Cons.prems(2) by simp
    from Cons.IH [OF hd(5) this]
    have IH: "c + int (length p') \<le> sint off"
      "sint off + int (length p) \<le> c + int (length p') + int (length (drop (length p') body))"
      "n \<le> length p"
      "\<forall>i < length p. p ! i = drop (length p') body ! (nat (sint off - (c + int (length p'))) + i)"
      by simp_all
    have a: "c \<le> sint off" using IH(1) by simp
    have b: "sint off + int (length p) \<le> c + int (length body)" using IH(2) hd(4) by simp
    have "\<forall>i < length p. p ! i = body ! (nat (sint off - c) + i)"
    proof (intro allI impI)
      fix i assume i: "i < length p"
      have idx: "length p' + (nat (sint off - (c + int (length p'))) + i) = nat (sint off - c) + i"
        using IH(1) by (simp add: nat_diff_distrib nat_add_distrib)
      have "p ! i = drop (length p') body ! (nat (sint off - (c + int (length p'))) + i)"
        using IH(4) i by simp
      also have "\<dots> = body ! (length p' + (nat (sint off - (c + int (length p'))) + i))"
        using hd(4) by simp
      finally show "p ! i = body ! (nat (sint off - c) + i)" by (simp only: idx)
    qed
    then show ?thesis using a b IH(3) by simp
  qed
qed


section \<open>Claim C7: the write discipline of a fetcher\<close>

lemma downloadChunk_trace:
  assumes "req_ok ce" "response ce = Some body" "0 \<le> sint start"
  shows "downloadChunk ce start end' =
           (EvWriteAt start [] 0 # fst (io_Copy (wfaults ce) start body),
            (case snd (io_Copy (wfaults ce) start body) of
               None \<Rightarrow> Downloaded | Some e \<Rightarrow> CopyError e))"
  using assms
  by (simp add: downloadChunk_def WriteAt_def word_sless_alt split: prod.splits)

text \<open>
  Claim C7 (write discipline within a fetcher), as the code has it. A fetcher whose
  request goes out first makes an empty write at \<open>start\<close>; the writes of its copy then
  begin at \<open>start\<close>, each at the position where the one before ended and each but the
  last of at least one byte, so that no offset is written twice; and the cursor never
  passes \<open>start\<close> plus the length of the response body. It stays within \<open>end + 1\<close> when
  the body is no longer than the range asked for: the fetcher itself never looks at
  \<open>end\<close>.
\<close>

theorem fetcher_write_discipline:
  assumes "req_ok ce" and "response ce = Some body" and "0 \<le> sint start"
    and "sint start + int (length (remaining body)) < 2^63"
  shows "\<exists>evs. fst (downloadChunk ce start end') = EvWriteAt start [] 0 # evs \<and>
           chained (sint start) (writes_of evs) \<and>
           (\<forall>(off, p, n) \<in> set (writes_of evs).
              sint start \<le> sint off \<and>
              sint off + int n \<le> sint start + int (length (remaining body))) \<and>
           (int (length (remaining body)) \<le> sint end' - sint start + 1 \<longrightarrow>
              (\<forall>(off, p, n) \<in> set (writes_of evs). sint off + int n \<le> sint end' + 1))"
proof -
  let ?evs = "fst (io_Copy (wfaults ce) start body)"
  have t: "fst (downloadChunk ce start end') = EvWriteAt start [] 0 # ?evs"
    using downloadChunk_trace [OF assms(1-3)] by simp
  have l: "laid (sint start) (remaining body) (writes_of ?evs)"
    using io_Copy_laid [OF assms(3,4)] by simp
  have c: "chained (sint start) (writes_of ?evs)" using l by (rule laid_chained)
  have b: "\<forall>(off, p, n) \<in> set (writes_of ?evs).
              sint start \<le> sint off \<and>
              sint off + int n \<le> sint start + int (length (remaining body))"
  proof (clarify)
    fix off p n assume "(off, p, n) \<in> set (writes_of ?evs)"
    from laid_member [OF l this]
    show "sint start \<le> sint off \<and> sint off + int n \<le> sint start + int (length (remaining body))"
      by auto
  qed
  have e: "int (length (remaining body)) \<le> sint end' - sint start + 1 \<longrightarrow>
              (\<forall>(off, p, n) \<in> set (writes_of ?evs). sint off + int n \<le> sint end' + 1)"
    using b by fastforce
  show ?thesis using t c b e by blast
qed

theorem fetcher_write_discipline_witness:
  "req_ok \<lparr>req_ok = True, response = Some five_bytes, wfaults = []\<rparr> \<and>
   0 \<le> sint (3::int64) \<and> sint (3::int64) + int (length (remaining five_bytes)) < 2^63 \<and>
   int (length (remaining five_bytes)) \<le> sint (7::int64) - sint (3::int64) + 1 \<and>
   fst (downloadChunk \<lparr>req_ok = True, response = Some five_bytes, wfaults = []\<rparr> 3 7) =
     [EvWriteAt 3 [] 0, EvWait 16384, EvRead 16384 5, EvWriteAt 3 [1, 2, 3, 4, 5] 5,
      EvWait 16384, EvRead 16384 0] \<and>
   chained (sint (3::int64)) [(3, [1, 2, 3, 4, 5], 5)]"
proof -
  have h: "req_ok \<lparr>req_ok = True, response = Some five_bytes, wfaults = []\<rparr>"
    "response \<lparr>req_ok = True, response = Some five_bytes, wfaults = []\<rparr> = Some five_bytes"
    "0 \<le> sint (3::int64)" "sint (3::int64) + int (length (remaining five_bytes)) < 2^63"
    by (simp_all add: five_bytes_def)
  have r: "int (length (remaining five_bytes)) \<le> sint (7::int64) - sint (3::int64) + 1"
    by (simp add: five_bytes_def)
  from fetcher_write_discipline [OF h, of 7]
  have "chained (sint (3::int64)) [(3, [1, 2, 3, 4, 5], 5)]"
    by (simp add: downloadChunk_five_bytes)
  then show ?thesis using h r by (simp add: downloadChunk_five_bytes)
qed

text \<open>
  The claim as stated fails where the server sends more than the range: asked for bytes
  3 to 5, a body of five bytes takes the cursor to 8, past \<open>end + 1 = 6\<close>.
\<close>

lemma downloadChunk_five_bytes_short_range:
  "downloadChunk \<lparr>req_ok = True, response = Some five_bytes, wfaults = []\<rparr> 3 5 =
     ([EvWriteAt 3 [] 0, EvWait 16384, EvRead 16384 5, EvWriteAt 3 [1, 2, 3, 4, 5] 5,
       EvWait 16384, EvRead 16384 0], Downloaded)"
  by (simp add: downloadChunk_def WriteAt_def word_sless_alt io_Copy.simps Read_def
      body_Read_def five_bytes_def Write_def)

theorem fetcher_overruns_range_counterexample:
  "fst (downloadChunk \<lparr>req_ok = True, response = Some five_bytes, wfaults = []\<rparr> 3 5) =
     [EvWriteAt 3 [] 0, EvWait 16384, EvRead 16384 5, EvWriteAt 3 [1, 2, 3, 4, 5] 5,
      EvWait 16384, EvRead 16384 0] \<and>
   sint (5::int64) + 1 < sint (3::int64) + int 5"
  by (simp add: downloadChunk_five_bytes_short_range)

section \<open>Writes that agree with the resource\<close>













section \<open>Claim C1: end-to-end fidelity\<close>









section \<open>Claim C9: the output file's name\<close>

lemma Base_no_slash:
  "Base p = ''/'' \<or> CHR ''/'' \<notin> set (Base p)"
proof (cases "p = []")
  case True
  then show ?thesis by (simp add: Base_def)
next
  case False
  let ?e = "takeWhile (\<lambda>c. c \<noteq> CHR ''/'') (dropWhile (\<lambda>c. c = CHR ''/'') (rev p))"
  have "CHR ''/'' \<notin> set ?e" using set_takeWhileD by fastforce
  then show ?thesis using False by (auto simp: Base_def Let_def)
qed

lemma TrimSuffix_Ext:
  assumes "CHR ''/'' \<notin> set name"
  shows "TrimSuffix name (Ext name) = stem name"
proof (cases "CHR ''.'' \<in> set name")
  case False
  then have "CHR ''.'' \<notin> set (rev name)" by simp
  then have "CHR ''.'' \<notin> set (takeWhile (\<lambda>c. c \<noteq> CHR ''/'') (rev name))"
    using set_takeWhileD by fastforce
  then have "Ext name = []" by (simp add: Ext_def Let_def)
  then show ?thesis using False by (simp add: TrimSuffix_def HasSuffix_def stem_def)
next
  case True
  let ?P = "\<lambda>c. c \<noteq> CHR ''.''"
  let ?r = "rev name"
  have whole: "takeWhile (\<lambda>c. c \<noteq> CHR ''/'') ?r = ?r"
    using assms by (auto simp: takeWhile_eq_all_conv)
  have dot: "CHR ''.'' \<in> set ?r" using True by simp
  then have ne: "dropWhile ?P ?r \<noteq> []" unfolding dropWhile_eq_Nil_conv by blast
  then have "\<not> ?P (hd (dropWhile ?P ?r))" by (rule hd_dropWhile)
  then have "hd (dropWhile ?P ?r) = CHR ''.''" by simp
  then obtain rest where dw: "dropWhile ?P ?r = CHR ''.'' # rest"
    using ne by (cases "dropWhile ?P ?r") simp_all
  have ext: "Ext name = CHR ''.'' # rev (takeWhile ?P ?r)"
    unfolding Ext_def Let_def whole using dot by simp
  have "takeWhile ?P ?r @ dropWhile ?P ?r = ?r" by (rule takeWhile_dropWhile_id)
  then have "rev (takeWhile ?P ?r @ CHR ''.'' # rest) = rev ?r" unfolding dw by (rule arg_cong)
  then have name: "name = rev rest @ CHR ''.'' # rev (takeWhile ?P ?r)" by simp
  have "TrimSuffix (rev rest @ CHR ''.'' # rev (takeWhile ?P ?r)) (CHR ''.'' # rev (takeWhile ?P ?r))
          = rev rest"
    by (simp add: TrimSuffix_def HasSuffix_def)
  then have "TrimSuffix name (Ext name) = rev rest"
    unfolding ext name [symmetric] .
  moreover have "stem name = rev rest" using True dw by (simp add: stem_def)
  ultimately show ?thesis by simp
qed

text \<open>
  APS2 does what the specification says: for a URL that parses, the name is the base
  name of the URL's path, with its extension replaced by the \<^verbatim>\<open>format\<close> parameter's
  value when there is one.
\<close>

lemma getFileName_APS2:
  shows "getFileName (Some u) =
           (if Values_Get (Query u) ''format'' = [] then Base (Path u)
            else replace_extension (Base (Path u)) (Values_Get (Query u) ''format''))"
proof -
  have "TrimSuffix (Base (Path u)) (Ext (Base (Path u))) = stem (Base (Path u))"
  proof (cases "Base (Path u) = ''/''")
    case True
    then show ?thesis by (simp add: TrimSuffix_def HasSuffix_def Ext_def stem_def)
  next
    case False
    then show ?thesis using Base_no_slash [of "Path u"] by (intro TrimSuffix_Ext) simp
  qed
  then show ?thesis by (simp add: getFileName_def Let_def replace_extension_def)
qed

text \<open>
  Claim C9 (output file naming) against APS1. For the URL
  \<^verbatim>\<open>http://h/d/f.bin?format=mp4\<close>, whose path is \<^verbatim>\<open>/d/f.bin\<close> and whose \<^verbatim>\<open>format\<close>
  parameter is \<^verbatim>\<open>mp4\<close>, APS1 names the file \<^verbatim>\<open>f.bin?format=mp4\<close>: the base name of
  the URL string, query included. APS2 and the specification give \<^verbatim>\<open>f.mp4\<close>.
\<close>

theorem fileName_APS1_keeps_query:
  "fileName_APS1 ''http://h/d/f.bin?format=mp4'' = ''f.bin?format=mp4'' \<and>
   getFileName (Some \<lparr>Path = ''/d/f.bin'', Query = (\<lambda>k. if k = ''format'' then [''mp4''] else [])\<rparr>)
     = ''f.mp4'' \<and>
   replace_extension (Base ''/d/f.bin'') ''mp4'' = ''f.mp4''"
proof -
  have a: "fileName_APS1 ''http://h/d/f.bin?format=mp4'' = ''f.bin?format=mp4''"
    by (simp add: fileName_APS1_def Base_def)
  have b: "getFileName (Some \<lparr>Path = ''/d/f.bin'', Query = (\<lambda>k. if k = ''format'' then [''mp4''] else [])\<rparr>)
     = ''f.mp4''"
    by (simp add: getFileName_def Base_def Ext_def TrimSuffix_def HasSuffix_def Values_Get_def)
  have c: "replace_extension (Base ''/d/f.bin'') ''mp4'' = ''f.mp4''"
    by (simp add: replace_extension_def stem_def Base_def)
  show ?thesis using a b c by simp
qed

(*END*)
end
